theory Spec2Isabelle
  imports Main "HOL-Library.Sublist"
begin

section \<open>tox-docker, tox 3 plugin hooks (src/tox\_docker/tox3/plugin.py)\<close>

text \<open>
  The module keeps two process-wide dictionaries, \<open>CONTAINER_CONFIGS\<close> and
  \<open>ENV_CONTAINERS\<close>, and implements the hooks \<open>tox_configure\<close>,
  \<open>tox_runtest_pre\<close> and \<open>tox_runtest_post\<close>. The hooks are embedded as
  functions that take the module state and return the outcome (the exception that left
  the hook, if any) together with the state as the hook left it.

  The functions imported from \<open>tox_docker.plugin\<close> and \<open>tox_docker.tox3.config\<close>
  (\<open>docker_pull\<close>, \<open>docker_run\<close>, \<open>docker_health_check\<close>, \<open>get_env_vars\<close>,
  \<open>stop_containers\<close>, \<open>discover_container_configs\<close>, \<open>parse_container_config\<close>)
  are not part of the module. They are parameters of the model. The ones that talk to
  the container engine may answer differently each time they are called, so each of them
  receives the log of all calls made so far. Every call the hooks issue is appended to
  that log with its arguments and its answer.
\<close>

subsection \<open>Data\<close>

text \<open>
  Modelled from the spec: the class \<open>ContainerConfig\<close> of \<open>tox_docker.config\<close> is
  not in the module. The module reads only its attribute \<open>name\<close>; the image reference
  and the dependency links are the attributes the specification lists.
\<close>

record ContainerConfig =
  name :: string
  image_ref :: string
  links :: "string list"

text \<open>
  Modelled from the spec: a running container is an opaque handle of the container
  engine, identified by the engine's identifier.
\<close>

datatype container = Container string

text \<open>
  The exceptions that can leave a hook. The three \<open>ValueError\<close>s are the ones the
  module raises itself; each carries the container name its message quotes:
  \<^item> \<open>ValueError_dont_stop n\<close>: "Container n not found (from --docker-dont-stop)";
  \<^item> \<open>ValueError_missing n\<close>: "Missing [docker:n] in tox.ini";
  \<^item> \<open>ValueError_twice n\<close>: "Container n specified more than once".

  \<open>KeyError\<close> is a failed dictionary subscript, \<open>AttributeError\<close> a failed attribute
  lookup, \<open>HealthCheckFailed\<close> the exception of \<open>tox_docker.plugin\<close>, and
  \<open>OtherError\<close> any other exception raised by a function outside the module.
\<close>

datatype exn =
    ValueError_dont_stop string
  | ValueError_missing string
  | ValueError_twice string
  | KeyError string
  | AttributeError
  | HealthCheckFailed
  | OtherError string

text \<open>A Python \<open>dict\<close> whose iteration order matters: the items in insertion order.\<close>

type_synonym ('k, 'v) dict = "('k \<times> 'v) list"

text \<open>
  \<open>d[k] = v\<close>: an existing key keeps its position and gets the new value, a new key
  goes to the end.
\<close>

fun dict_set :: "('k, 'v) dict \<Rightarrow> 'k \<Rightarrow> 'v \<Rightarrow> ('k, 'v) dict" where
  "dict_set [] k v = [(k, v)]"
| "dict_set ((k', v') # d) k v =
     (if k' = k then (k, v) # d else (k', v') # dict_set d k v)"

text \<open>The calls issued to the functions that reach the container engine.\<close>

datatype event =
    EvPull ContainerConfig "exn option"
  | EvRun ContainerConfig "(string, container) dict" "exn + container"
  | EvHealth ContainerConfig container "exn option"
  | EvStop "(ContainerConfig \<times> container) list" "exn option"

text \<open>
  The imported functions of \<open>tox_docker.plugin\<close>. An answer \<open>None\<close> (or \<open>Inr\<close>)
  is a normal return, \<open>Some e\<close> (or \<open>Inl e\<close>) the exception raised. The logger
  argument and \<open>make_logger\<close> are left out. The functions receive the dictionaries and
  lists as values: they are taken not to store into the module's dictionaries.
\<close>

record engine =
  docker_pull :: "event list \<Rightarrow> ContainerConfig \<Rightarrow> exn option"
  docker_run :: "event list \<Rightarrow> ContainerConfig \<Rightarrow> (string, container) dict \<Rightarrow> exn + container"
  docker_health_check :: "event list \<Rightarrow> ContainerConfig \<Rightarrow> container \<Rightarrow> exn option"
  get_env_vars :: "ContainerConfig \<Rightarrow> container \<Rightarrow> exn + (string, string) dict"
  stop_containers :: "event list \<Rightarrow> (ContainerConfig \<times> container) list \<Rightarrow> exn option"

text \<open>
  The module state: the two global dictionaries and the log of calls. \<open>ENV_CONTAINERS\<close>
  is keyed by the \<open>VirtualEnv\<close> object, which hashes by identity.
\<close>

record pstate =
  CONTAINER_CONFIGS :: "string \<rightharpoonup> ContainerConfig"
  ENV_CONTAINERS :: "nat \<rightharpoonup> (string, container) dict"
  calls :: "event list"

text \<open>
  A \<open>VirtualEnv\<close>: its identity, \<open>venv.envconfig.docker\<close> and
  \<open>venv.envconfig.setenv\<close>.
\<close>

record VirtualEnv =
  venv_id :: nat
  docker :: "string list"
  setenv :: "string \<rightharpoonup> string"

text \<open>
  The tox \<open>Config\<close>: the module reads \<open>config.option.docker_dont_stop\<close>; the rest of
  the object is passed on to the two functions of \<open>tox_docker.tox3.config\<close>.
\<close>

record Config =
  docker_dont_stop :: "string list"

record tox3_config =
  discover_container_configs :: "Config \<Rightarrow> string list"
  parse_container_config :: "Config \<Rightarrow> string \<Rightarrow> string list \<Rightarrow> exn + ContainerConfig"

subsection \<open>tox\_configure\<close>

text \<open>Lines 41-45: the first unknown name of \<open>--docker-dont-stop\<close> raises.\<close>

fun validate_dont_stop :: "string list \<Rightarrow> string list \<Rightarrow> exn option" where
  "validate_dont_stop container_config_names [] = None"
| "validate_dont_stop container_config_names (container_name # rest) =
     (if container_name \<notin> set container_config_names
      then Some (ValueError_dont_stop container_name)
      else validate_dont_stop container_config_names rest)"

text \<open>Lines 48-51: each parsed configuration is stored as soon as it is parsed.\<close>

fun parse_loop ::
  "tox3_config \<Rightarrow> Config \<Rightarrow> string list \<Rightarrow> string list \<Rightarrow> pstate \<Rightarrow> exn option \<times> pstate" where
  "parse_loop t config container_config_names [] st = (None, st)"
| "parse_loop t config container_config_names (container_name # rest) st =
     (case parse_container_config t config container_name container_config_names of
        Inl e \<Rightarrow> (Some e, st)
      | Inr cc \<Rightarrow>
          parse_loop t config container_config_names rest
            (st\<lparr>CONTAINER_CONFIGS := (CONTAINER_CONFIGS st)(container_name \<mapsto> cc)\<rparr>))"

definition tox_configure :: "tox3_config \<Rightarrow> Config \<Rightarrow> pstate \<Rightarrow> exn option \<times> pstate" where
  "tox_configure t config st =
     (let container_config_names = discover_container_configs t config in
      case validate_dont_stop container_config_names (docker_dont_stop config) of
        Some e \<Rightarrow> (Some e, st)
      | None \<Rightarrow> parse_loop t config container_config_names container_config_names st)"

subsection \<open>tox\_runtest\_pre\<close>

text \<open>
  Lines 61-70: the loop that checks the declared names and collects their
  configurations; \<open>seen\<close> and \<open>env_container_configs\<close> are the loop's two
  accumulators.
\<close>

fun resolve_loop ::
  "(string \<rightharpoonup> ContainerConfig) \<Rightarrow> string list \<Rightarrow> string list \<Rightarrow> ContainerConfig list
   \<Rightarrow> exn + ContainerConfig list" where
  "resolve_loop cfgs [] seen env_container_configs = Inr env_container_configs"
| "resolve_loop cfgs (container_name # rest) seen env_container_configs =
     (case cfgs container_name of
        None \<Rightarrow> Inl (ValueError_missing container_name)
      | Some cc \<Rightarrow>
          if container_name \<in> set seen then Inl (ValueError_twice container_name)
          else resolve_loop cfgs rest (container_name # seen) (env_container_configs @ [cc]))"

definition resolve_container_set ::
  "(string \<rightharpoonup> ContainerConfig) \<Rightarrow> string list \<Rightarrow> exn + ContainerConfig list" where
  "resolve_container_set cfgs container_names = resolve_loop cfgs container_names [] []"

text \<open>Lines 72-73.\<close>

fun pull_loop :: "engine \<Rightarrow> ContainerConfig list \<Rightarrow> pstate \<Rightarrow> exn option \<times> pstate" where
  "pull_loop eng [] st = (None, st)"
| "pull_loop eng (container_config # rest) st =
     (let r = docker_pull eng (calls st) container_config;
          st' = st\<lparr>calls := calls st @ [EvPull container_config r]\<rparr>
      in case r of Some e \<Rightarrow> (Some e, st') | None \<Rightarrow> pull_loop eng rest st')"

text \<open>
  Lines 75-76: \<open>ENV_CONTAINERS.setdefault(venv, {})\<close>, and the dictionary then
  bound to \<open>containers\<close>. That dictionary is the one stored in \<open>ENV_CONTAINERS\<close>, so
  a store into \<open>containers\<close> is a store into the registry.
\<close>

definition setdefault_env :: "nat \<Rightarrow> pstate \<Rightarrow> pstate" where
  "setdefault_env v st =
     (case ENV_CONTAINERS st v of
        None \<Rightarrow> st\<lparr>ENV_CONTAINERS := (ENV_CONTAINERS st)(v \<mapsto> [])\<rparr>
      | Some d \<Rightarrow> st)"

definition env_dict :: "pstate \<Rightarrow> nat \<Rightarrow> (string, container) dict" where
  "env_dict st v = (case ENV_CONTAINERS st v of None \<Rightarrow> [] | Some d \<Rightarrow> d)"

text \<open>Lines 78-80.\<close>

fun run_loop :: "engine \<Rightarrow> nat \<Rightarrow> ContainerConfig list \<Rightarrow> pstate \<Rightarrow> exn option \<times> pstate" where
  "run_loop eng v [] st = (None, st)"
| "run_loop eng v (container_config # rest) st =
     (let containers = env_dict st v;
          r = docker_run eng (calls st) container_config containers;
          st' = st\<lparr>calls := calls st @ [EvRun container_config containers r]\<rparr>
      in case r of
           Inl e \<Rightarrow> (Some e, st')
         | Inr container \<Rightarrow>
             run_loop eng v rest
               (st'\<lparr>ENV_CONTAINERS :=
                  (ENV_CONTAINERS st')(v \<mapsto> dict_set containers (name container_config) container)\<rparr>))"

text \<open>
  Lines 82-88: \<open>HealthCheckFailed\<close> is caught and ends the loop; any other
  exception leaves the hook.
\<close>

fun health_loop ::
  "engine \<Rightarrow> (string, container) dict \<Rightarrow> pstate \<Rightarrow> exn option \<times> pstate" where
  "health_loop eng [] st = (None, st)"
| "health_loop eng ((container_name, container) # rest) st =
     (case CONTAINER_CONFIGS st container_name of
        None \<Rightarrow> (Some (KeyError container_name), st)
      | Some container_config \<Rightarrow>
          (let r = docker_health_check eng (calls st) container_config container;
               st' = st\<lparr>calls := calls st @ [EvHealth container_config container r]\<rparr>
           in case r of
                None \<Rightarrow> health_loop eng rest st'
              | Some HealthCheckFailed \<Rightarrow> (None, st')
              | Some e \<Rightarrow> (Some e, st')))"

text \<open>Lines 95-97: a variable is stored only when its name is not in \<open>setenv\<close>.\<close>

fun update_if_not_present ::
  "(string \<rightharpoonup> string) \<Rightarrow> (string, string) dict \<Rightarrow> (string \<rightharpoonup> string)" where
  "update_if_not_present env [] = env"
| "update_if_not_present env ((var, val) # rest) =
     update_if_not_present (if env var = None then env(var \<mapsto> val) else env) rest"

text \<open>Lines 90-97.\<close>

fun inject_loop ::
  "engine \<Rightarrow> (string \<rightharpoonup> ContainerConfig) \<Rightarrow> (string, container) dict \<Rightarrow> (string \<rightharpoonup> string)
   \<Rightarrow> exn option \<times> (string \<rightharpoonup> string)" where
  "inject_loop eng cfgs [] env = (None, env)"
| "inject_loop eng cfgs ((container_name, container) # rest) env =
     (case cfgs container_name of
        None \<Rightarrow> (Some (KeyError container_name), env)
      | Some container_config \<Rightarrow>
          (case get_env_vars eng container_config container of
             Inl e \<Rightarrow> (Some e, env)
           | Inr vars \<Rightarrow> inject_loop eng cfgs rest (update_if_not_present env vars)))"

definition tox_runtest_pre ::
  "engine \<Rightarrow> VirtualEnv \<Rightarrow> pstate \<Rightarrow> exn option \<times> VirtualEnv \<times> pstate" where
  "tox_runtest_pre eng venv st =
     (case resolve_container_set (CONTAINER_CONFIGS st) (docker venv) of
        Inl e \<Rightarrow> (Some e, venv, st)
      | Inr env_container_configs \<Rightarrow>
          (case pull_loop eng env_container_configs st of
             (Some e, st1) \<Rightarrow> (Some e, venv, st1)
           | (None, st1) \<Rightarrow>
               (case run_loop eng (venv_id venv) env_container_configs
                       (setdefault_env (venv_id venv) st1) of
                  (Some e, st2) \<Rightarrow> (Some e, venv, st2)
                | (None, st2) \<Rightarrow>
                    (case health_loop eng (env_dict st2 (venv_id venv)) st2 of
                       (Some e, st3) \<Rightarrow> (Some e, venv, st3)
                     | (None, st3) \<Rightarrow>
                         (case inject_loop eng (CONTAINER_CONFIGS st3)
                                 (env_dict st3 (venv_id venv)) (setenv venv) of
                            (r, env') \<Rightarrow> (r, venv\<lparr>setenv := env'\<rparr>, st3))))))"

subsection \<open>tox\_runtest\_post\<close>

text \<open>
  Line 102: \<open>ENV_CONTAINERS.get(venv, [])\<close> is the registered dictionary, or the
  default, an empty list. Line 105 calls \<open>.items()\<close> on it, which a list does not have.
\<close>

datatype env_lookup = Registered "(string, container) dict" | DefaultList

definition get_env_containers :: "pstate \<Rightarrow> nat \<Rightarrow> env_lookup" where
  "get_env_containers st v =
     (case ENV_CONTAINERS st v of None \<Rightarrow> DefaultList | Some d \<Rightarrow> Registered d)"

fun items :: "env_lookup \<Rightarrow> exn + (string, container) dict" where
  "items (Registered d) = Inr d"
| "items DefaultList = Inl AttributeError"

text \<open>Lines 103-106: the list comprehension, with the subscript that can fail.\<close>

fun containers_and_configs ::
  "(string \<rightharpoonup> ContainerConfig) \<Rightarrow> (string, container) dict
   \<Rightarrow> exn + (ContainerConfig \<times> container) list" where
  "containers_and_configs cfgs [] = Inr []"
| "containers_and_configs cfgs ((container_name, container) # rest) =
     (case cfgs container_name of
        None \<Rightarrow> Inl (KeyError container_name)
      | Some cc \<Rightarrow>
          (case containers_and_configs cfgs rest of
             Inl e \<Rightarrow> Inl e
           | Inr ccs \<Rightarrow> Inr ((cc, container) # ccs)))"

definition tox_runtest_post :: "engine \<Rightarrow> VirtualEnv \<Rightarrow> pstate \<Rightarrow> exn option \<times> pstate" where
  "tox_runtest_post eng venv st =
     (case items (get_env_containers st (venv_id venv)) of
        Inl e \<Rightarrow> (Some e, st)
      | Inr env_containers \<Rightarrow>
          (case containers_and_configs (CONTAINER_CONFIGS st) env_containers of
             Inl e \<Rightarrow> (Some e, st)
           | Inr ccs \<Rightarrow>
               (let r = stop_containers eng (calls st) ccs
                in (r, st\<lparr>calls := calls st @ [EvStop ccs r]\<rparr>))))"

subsection \<open>Reading the log of calls\<close>

text \<open>The calls a hook added to the log: the log after it, without the log before it.\<close>

definition new_calls :: "pstate \<Rightarrow> pstate \<Rightarrow> event list" where
  "new_calls st st' = drop (length (calls st)) (calls st')"

fun is_pull :: "event \<Rightarrow> bool" where
  "is_pull (EvPull c r) = True"
| "is_pull e = False"

fun is_run :: "event \<Rightarrow> bool" where
  "is_run (EvRun c d r) = True"
| "is_run e = False"

fun is_health :: "event \<Rightarrow> bool" where
  "is_health (EvHealth c k r) = True"
| "is_health e = False"

text \<open>A health check that raised \<open>HealthCheckFailed\<close>; a pull that raised.\<close>

fun health_failed :: "event \<Rightarrow> bool" where
  "health_failed (EvHealth c k (Some HealthCheckFailed)) = True"
| "health_failed e = False"

fun pull_failed :: "event \<Rightarrow> bool" where
  "pull_failed (EvPull c (Some e)) = True"
| "pull_failed e = False"

text \<open>The containers whose health was checked, in the order of the checks.\<close>

fun health_checked :: "event list \<Rightarrow> container list" where
  "health_checked [] = []"
| "health_checked (EvHealth c k r # es) = k # health_checked es"
| "health_checked (e # es) = health_checked es"

text \<open>
  What \<open>parse_container_config\<close> is expected to provide: the configuration stored
  under a name has that name as its attribute \<open>name\<close>. The module stores a started
  container under \<open>container_config.name\<close> and looks its configuration up again by
  that key.
\<close>

definition keyed_by_name :: "(string \<rightharpoonup> ContainerConfig) \<Rightarrow> string list \<Rightarrow> bool" where
  "keyed_by_name cfgs ns =
     list_all (\<lambda>n. case cfgs n of None \<Rightarrow> True | Some c \<Rightarrow> name c = n) ns"

text \<open>
  The variables exported by the containers of a dictionary, in iteration order, whatever
  their health checks said. This function is not part of the module: it states what
  lines 90-97 are compared with.
\<close>

fun exported_by_all ::
  "engine \<Rightarrow> (string \<rightharpoonup> ContainerConfig) \<Rightarrow> (string, container) dict \<Rightarrow> (string, string) dict" where
  "exported_by_all eng cfgs [] = []"
| "exported_by_all eng cfgs ((container_name, container) # rest) =
     (case cfgs container_name of
        None \<Rightarrow> []
      | Some cc \<Rightarrow>
          (case get_env_vars eng cc container of
             Inl e \<Rightarrow> []
           | Inr vars \<Rightarrow> vars @ exported_by_all eng cfgs rest))"

subsection \<open>Concrete inputs\<close>

text \<open>
  Two configurations as in the specification's scenario (\<open>web\<close> links to \<open>db\<close>), two
  that link to each other, a registry holding the four, and engines that always succeed,
  fail every health check, fail every pull, or fail every start.
\<close>

definition cfg_db :: ContainerConfig where
  "cfg_db = \<lparr>name = ''db'', image_ref = ''postgres:16'', links = []\<rparr>"

definition cfg_web :: ContainerConfig where
  "cfg_web = \<lparr>name = ''web'', image_ref = ''nginx:1'', links = [''db'']\<rparr>"

definition cfg_a :: ContainerConfig where
  "cfg_a = \<lparr>name = ''a'', image_ref = ''img-a'', links = [''b'']\<rparr>"

definition cfg_b :: ContainerConfig where
  "cfg_b = \<lparr>name = ''b'', image_ref = ''img-b'', links = [''a'']\<rparr>"

definition registry_ex :: "string \<rightharpoonup> ContainerConfig" where
  "registry_ex = [''db'' \<mapsto> cfg_db, ''web'' \<mapsto> cfg_web, ''a'' \<mapsto> cfg_a, ''b'' \<mapsto> cfg_b]"

definition st_ex :: pstate where
  "st_ex = \<lparr>CONTAINER_CONFIGS = registry_ex, ENV_CONTAINERS = Map.empty, calls = []\<rparr>"

definition eng_ok :: engine where
  "eng_ok =
     \<lparr>docker_pull = (\<lambda>tr c. None),
      docker_run = (\<lambda>tr c d. Inr (Container (name c))),
      docker_health_check = (\<lambda>tr c k. None),
      get_env_vars = (\<lambda>c k. Inr [(name c @ ''_HOST'', ''127.0.0.1'')]),
      stop_containers = (\<lambda>tr ccs. None)\<rparr>"

definition eng_unhealthy :: engine where
  "eng_unhealthy = eng_ok\<lparr>docker_health_check := (\<lambda>tr c k. Some HealthCheckFailed)\<rparr>"

definition eng_pull_fails :: engine where
  "eng_pull_fails = eng_ok\<lparr>docker_pull := (\<lambda>tr c. Some (OtherError ''pull failed''))\<rparr>"

definition eng_run_fails :: engine where
  "eng_run_fails = eng_ok\<lparr>docker_run := (\<lambda>tr c d. Inl (OtherError ''run failed''))\<rparr>"

definition venv_ex :: "string list \<Rightarrow> VirtualEnv" where
  "venv_ex ns = \<lparr>venv_id = 0, docker = ns, setenv = [''db_HOST'' \<mapsto> ''localhost'']\<rparr>"


text \<open>
  A configuration pass that discovers \<open>db\<close> and \<open>web\<close>, a command line that names
  two unknown containers, one that names a known container, and the state before
  configuration.
\<close>

definition t_ex :: tox3_config where
  "t_ex =
     \<lparr>discover_container_configs = (\<lambda>config. [''db'', ''web'']),
      parse_container_config =
        (\<lambda>config n known. if n = ''db'' then Inr cfg_db else Inr cfg_web)\<rparr>"

definition config_ghosts :: Config where
  "config_ghosts = \<lparr>docker_dont_stop = [''ghost1'', ''ghost2'']\<rparr>"

definition config_keep_db :: Config where
  "config_keep_db = \<lparr>docker_dont_stop = [''db'']\<rparr>"

definition st_empty :: pstate where
  "st_empty = \<lparr>CONTAINER_CONFIGS = Map.empty, ENV_CONTAINERS = Map.empty, calls = []\<rparr>"

text \<open>The state after a successful setup of \<open>db\<close> and \<open>web\<close> for environment 0.\<close>

definition st_running :: pstate where
  "st_running =
     \<lparr>CONTAINER_CONFIGS = registry_ex,
      ENV_CONTAINERS = [0 \<mapsto> [(''db'', Container ''db''), (''web'', Container ''web'')]],
      calls = []\<rparr>"

section \<open>Properties of the loops\<close>

lemmas ex_defs = cfg_db_def cfg_web_def cfg_a_def cfg_b_def registry_ex_def st_ex_def eng_ok_def
  eng_unhealthy_def eng_pull_fails_def eng_run_fails_def venv_ex_def t_ex_def config_ghosts_def config_keep_db_def
  st_empty_def st_running_def

lemmas run_defs = tox_runtest_pre_def tox_runtest_post_def resolve_container_set_def
  setdefault_env_def env_dict_def get_env_containers_def new_calls_def Let_def

lemma resolve_loop_ok:
  "set ns \<subseteq> dom cfgs \<Longrightarrow> distinct ns \<Longrightarrow> set ns \<inter> set seen = {} \<Longrightarrow>
   \<exists>cs. resolve_loop cfgs ns seen acc = Inr (acc @ cs) \<and> map cfgs ns = map Some cs"
proof (induction ns arbitrary: seen acc)
  case Nil
  then show ?case by simp
next
  case (Cons n ns)
  from Cons.prems obtain cc where cc: "cfgs n = Some cc" by auto
  from Cons.prems have "set ns \<subseteq> dom cfgs" "distinct ns" "set ns \<inter> set (n # seen) = {}" "n \<notin> set seen"
    by auto
  from Cons.IH [OF this(1,2,3), of "acc @ [cc]"] cc \<open>n \<notin> set seen\<close>
  show ?case by auto
qed

lemma resolve_loop_err:
  "resolve_loop cfgs ns seen acc = Inl e \<Longrightarrow>
   (\<exists>n \<in> set ns. cfgs n = None \<and> e = ValueError_missing n) \<or>
   (\<exists>n \<in> set ns. e = ValueError_twice n)"
  by (induction ns arbitrary: seen acc) (auto split: option.splits if_splits)

lemma resolve_loop_fails:
  "(\<exists>n \<in> set ns. cfgs n = None) \<or> \<not> distinct ns \<or> set ns \<inter> set seen \<noteq> {} \<Longrightarrow>
   \<exists>e. resolve_loop cfgs ns seen acc = Inl e"
proof (induction ns arbitrary: seen acc)
  case Nil
  then show ?case by simp
next
  case (Cons n ns)
  show ?case
  proof (cases "cfgs n")
    case None
    then show ?thesis by simp
  next
    case (Some cc)
    show ?thesis
    proof (cases "n \<in> set seen")
      case True
      with Some show ?thesis by simp
    next
      case False
      with Cons.prems Some
      have "(\<exists>m \<in> set ns. cfgs m = None) \<or> \<not> distinct ns \<or> set ns \<inter> set (n # seen) \<noteq> {}"
        by auto
      from Cons.IH [OF this, of "acc @ [cc]"] Some False show ?thesis by simp
    qed
  qed
qed

lemma update_if_not_present_keeps:
  "env var = Some val \<Longrightarrow> update_if_not_present env vars var = Some val"
proof (induction vars arbitrary: env)
  case Nil
  then show ?case by simp
next
  case (Cons p vars)
  obtain a b where p: "p = (a, b)" by (cases p)
  from Cons.prems have "(if env a = None then env(a \<mapsto> b) else env) var = Some val"
    by auto
  then have "update_if_not_present (if env a = None then env(a \<mapsto> b) else env) vars var = Some val"
    by (rule Cons.IH)
  then show ?case by (simp add: p)
qed

lemma inject_loop_keeps:
  "env var = Some val \<Longrightarrow> inject_loop eng cfgs d env = (r, env') \<Longrightarrow> env' var = Some val"
proof (induction d arbitrary: env)
  case Nil
  then show ?case by simp
next
  case (Cons p d)
  obtain n k where p: "p = (n, k)" by (cases p)
  from Cons.prems show ?case
    by (auto simp: p split: option.splits sum.splits
             intro: Cons.IH [OF update_if_not_present_keeps])
qed

lemma new_calls_append: "calls st' = calls st @ evs \<Longrightarrow> new_calls st st' = evs"
  by (simp add: new_calls_def)

lemma pull_loop_ok:
  "pull_loop eng cs st = (None, st') \<Longrightarrow>
   st' = st\<lparr>calls := calls st @ map (\<lambda>c. EvPull c None) cs\<rparr>"
proof (induction cs arbitrary: st)
  case Nil
  then show ?case by simp
next
  case (Cons c cs)
  from Cons.prems have r: "docker_pull eng (calls st) c = None"
    by (auto simp: Let_def split: option.splits)
  with Cons.prems
  have "pull_loop eng cs (st\<lparr>calls := calls st @ [EvPull c None]\<rparr>) = (None, st')"
    by (simp add: Let_def)
  from Cons.IH [OF this] show ?case by simp
qed

lemma pull_loop_fail:
  "pull_loop eng cs st = (Some e, st') \<Longrightarrow>
   \<exists>k < length cs. st' = st\<lparr>calls := calls st @ map (\<lambda>c. EvPull c None) (take k cs)
                                          @ [EvPull (cs ! k) (Some e)]\<rparr>"
proof (induction cs arbitrary: st)
  case Nil
  then show ?case by simp
next
  case (Cons c cs)
  show ?case
  proof (cases "docker_pull eng (calls st) c")
    case None
    with Cons.prems
    have "pull_loop eng cs (st\<lparr>calls := calls st @ [EvPull c None]\<rparr>) = (Some e, st')"
      by (simp add: Let_def)
    from Cons.IH [OF this] obtain k where k: "k < length cs"
      and st': "st' = st\<lparr>calls := calls st @ [EvPull c None] @ map (\<lambda>c. EvPull c None) (take k cs)
                                          @ [EvPull (cs ! k) (Some e)]\<rparr>"
      by auto
    show ?thesis
      by (rule exI [of _ "Suc k"]) (use k st' in simp)
  next
    case (Some e')
    with Cons.prems have "e' = e" "st' = st\<lparr>calls := calls st @ [EvPull c (Some e)]\<rparr>"
      by (auto simp: Let_def)
    then show ?thesis
      by (intro exI [of _ 0]) simp
  qed
qed

lemma setdefault_env_frame:
  "CONTAINER_CONFIGS (setdefault_env v st) = CONTAINER_CONFIGS st"
  "calls (setdefault_env v st) = calls st"
  "env_dict (setdefault_env v st) w = env_dict st w"
  by (auto simp: setdefault_env_def env_dict_def split: option.splits)

lemma health_loop_frame:
  "health_loop eng d st = (r, st') \<Longrightarrow>
   CONTAINER_CONFIGS st' = CONTAINER_CONFIGS st \<and> ENV_CONTAINERS st' = ENV_CONTAINERS st"
proof (induction d arbitrary: st)
  case Nil
  then show ?case by simp
next
  case (Cons p d)
  obtain n k where p: "p = (n, k)" by (cases p)
  show ?case
  proof (cases "CONTAINER_CONFIGS st n")
    case None
    with Cons.prems show ?thesis by (simp add: p)
  next
    case (Some cc)
    let ?r = "docker_health_check eng (calls st) cc k"
    let ?st = "st\<lparr>calls := calls st @ [EvHealth cc k ?r]\<rparr>"
    show ?thesis
    proof (cases ?r)
      case None
      with Cons.prems Some have "health_loop eng d ?st = (r, st')"
        by (simp add: p Let_def)
      from Cons.IH [OF this] show ?thesis by simp
    next
      case (Some e)
      with Cons.prems \<open>CONTAINER_CONFIGS st n = Some cc\<close> have "st' = ?st"
        by (cases e) (auto simp: p Let_def)
      then show ?thesis by simp
    qed
  qed
qed

lemma health_loop_calls:
  "health_loop eng d st = (r, st') \<Longrightarrow>
   \<exists>evs. calls st' = calls st @ evs \<and> (\<forall>e \<in> set evs. is_health e) \<and>
         (\<forall>e \<in> set (butlast evs). \<not> health_failed e) \<and>
         prefix (health_checked evs) (map snd d)"
proof (induction d arbitrary: st)
  case Nil
  then show ?case by simp
next
  case (Cons p d)
  obtain n k where p: "p = (n, k)" by (cases p)
  show ?case
  proof (cases "CONTAINER_CONFIGS st n")
    case None
    with Cons.prems show ?thesis by (simp add: p)
  next
    case (Some cc)
    let ?r = "docker_health_check eng (calls st) cc k"
    let ?st = "st\<lparr>calls := calls st @ [EvHealth cc k ?r]\<rparr>"
    show ?thesis
    proof (cases ?r)
      case None
      with Cons.prems Some have "health_loop eng d ?st = (r, st')"
        by (simp add: p Let_def)
      from Cons.IH [OF this] obtain evs where evs: "calls st' = calls ?st @ evs"
        "\<forall>e \<in> set evs. is_health e" "\<forall>e \<in> set (butlast evs). \<not> health_failed e"
        "prefix (health_checked evs) (map snd d)"
        by blast
      have "calls st' = calls st @ (EvHealth cc k None # evs)"
        using evs(1) None by simp
      moreover have "\<forall>e \<in> set (EvHealth cc k None # evs). is_health e"
        using evs(2) by simp
      moreover have "\<forall>e \<in> set (butlast (EvHealth cc k None # evs)). \<not> health_failed e"
        using evs(3) by simp
      moreover have "prefix (health_checked (EvHealth cc k None # evs)) (map snd (p # d))"
        using evs(4) by (simp add: p)
      ultimately show ?thesis by blast
    next
      case (Some e)
      with Cons.prems \<open>CONTAINER_CONFIGS st n = Some cc\<close> have "st' = ?st"
        by (cases e) (auto simp: p Let_def)
      then have "calls st' = calls st @ [EvHealth cc k ?r]" by simp
      moreover have "prefix (health_checked [EvHealth cc k ?r]) (map snd (p # d))"
        by (simp add: p)
      ultimately show ?thesis
        by (intro exI [of _ "[EvHealth cc k ?r]"]) simp
    qed
  qed
qed

lemma dict_set_keys: "fst ` set (dict_set d k v) = insert k (fst ` set d)"
proof (induction d)
  case Nil
  then show ?case by simp
next
  case (Cons p d)
  obtain a b where p: "p = (a, b)" by (cases p)
  show ?case
  proof (cases "a = k")
    case True
    then show ?thesis by (simp add: p)
  next
    case False
    with Cons.IH show ?thesis by (simp add: p insert_commute)
  qed
qed

lemma dict_set_mem: "(k, v) \<in> set (dict_set d k v)"
  by (induction d) auto

lemma dict_set_other: "(n, x) \<in> set d \<Longrightarrow> n \<noteq> k \<Longrightarrow> (n, x) \<in> set (dict_set d k v)"
  by (induction d) auto


lemma run_loop_frame:
  "run_loop eng v cs st = (r, st') \<Longrightarrow> CONTAINER_CONFIGS st' = CONTAINER_CONFIGS st"
proof (induction cs arbitrary: st)
  case Nil
  then show ?case by simp
next
  case (Cons c cs)
  let ?d0 = "env_dict st v"
  let ?a = "docker_run eng (calls st) c ?d0"
  let ?st0 = "st\<lparr>calls := calls st @ [EvRun c ?d0 ?a]\<rparr>"
  show ?case
  proof (cases ?a)
    case (Inl e)
    with Cons.prems show ?thesis by (auto simp: Let_def)
  next
    case (Inr k)
    let ?st1 = "?st0\<lparr>ENV_CONTAINERS := (ENV_CONTAINERS ?st0)(v \<mapsto> dict_set ?d0 (name c) k)\<rparr>"
    from Cons.prems Inr have "run_loop eng v cs ?st1 = (r, st')"
      by (simp add: Let_def)
    from Cons.IH [OF this] show ?thesis by simp
  qed
qed

lemma run_loop_calls:
  "run_loop eng v cs st = (r, st') \<Longrightarrow>
   \<exists>evs. calls st' = calls st @ evs \<and> length evs \<le> length cs \<and>
     (r = None \<longrightarrow> length evs = length cs) \<and>
     (\<forall>j < length evs. \<exists>d a. evs ! j = EvRun (cs ! j) d a \<and>
        fst ` set d = fst ` set (env_dict st v) \<union> name ` set (take j cs) \<and>
        (\<forall>n x. (n, x) \<in> set (env_dict st v) \<and> n \<notin> name ` set (take j cs) \<longrightarrow> (n, x) \<in> set d))"
proof (induction cs arbitrary: st)
  case Nil
  then show ?case by simp
next
  case (Cons c cs)
  let ?d0 = "env_dict st v"
  let ?a = "docker_run eng (calls st) c ?d0"
  let ?e0 = "EvRun c ?d0 ?a"
  let ?st0 = "st\<lparr>calls := calls st @ [?e0]\<rparr>"
  show ?case
  proof (cases ?a)
    case (Inl e)
    with Cons.prems have "st' = ?st0" "r = Some e" by (auto simp: Let_def)
    then show ?thesis
      by (intro exI [of _ "[?e0]"]) simp
  next
    case (Inr k)
    let ?d1 = "dict_set ?d0 (name c) k"
    let ?st1 = "?st0\<lparr>ENV_CONTAINERS := (ENV_CONTAINERS ?st0)(v \<mapsto> ?d1)\<rparr>"
    have d1: "env_dict ?st1 v = ?d1" by (simp add: env_dict_def)
    from Cons.prems Inr have "run_loop eng v cs ?st1 = (r, st')"
      by (simp add: Let_def)
    from Cons.IH [OF this] obtain evs where evs: "calls st' = calls ?st1 @ evs"
      "length evs \<le> length cs" "r = None \<longrightarrow> length evs = length cs"
      and each: "\<And>j. j < length evs \<Longrightarrow> \<exists>d a. evs ! j = EvRun (cs ! j) d a \<and>
        fst ` set d = fst ` set ?d1 \<union> name ` set (take j cs) \<and>
        (\<forall>n x. (n, x) \<in> set ?d1 \<and> n \<notin> name ` set (take j cs) \<longrightarrow> (n, x) \<in> set d)"
      unfolding d1 by blast
    have all: "\<forall>j < length (?e0 # evs). \<exists>d a. (?e0 # evs) ! j = EvRun ((c # cs) ! j) d a \<and>
        fst ` set d = fst ` set ?d0 \<union> name ` set (take j (c # cs)) \<and>
        (\<forall>n x. (n, x) \<in> set ?d0 \<and> n \<notin> name ` set (take j (c # cs)) \<longrightarrow> (n, x) \<in> set d)"
    proof (intro allI impI)
      fix j assume j: "j < length (?e0 # evs)"
      show "\<exists>d a. (?e0 # evs) ! j = EvRun ((c # cs) ! j) d a \<and>
        fst ` set d = fst ` set ?d0 \<union> name ` set (take j (c # cs)) \<and>
        (\<forall>n x. (n, x) \<in> set ?d0 \<and> n \<notin> name ` set (take j (c # cs)) \<longrightarrow> (n, x) \<in> set d)"
      proof (cases j)
        case 0
        then show ?thesis by simp
      next
        case (Suc i)
        with j have "i < length evs" by simp
        from each [OF this] obtain d a where da: "evs ! i = EvRun (cs ! i) d a"
          "fst ` set d = fst ` set ?d1 \<union> name ` set (take i cs)"
          "\<forall>n x. (n, x) \<in> set ?d1 \<and> n \<notin> name ` set (take i cs) \<longrightarrow> (n, x) \<in> set d"
          by blast
        have k1: "fst ` set d = fst ` set ?d0 \<union> name ` set (take j (c # cs))"
          using da(2) by (simp add: Suc dict_set_keys)
        have k2: "\<forall>n x. (n, x) \<in> set ?d0 \<and> n \<notin> name ` set (take j (c # cs)) \<longrightarrow> (n, x) \<in> set d"
        proof (intro allI impI)
          fix n x assume nx: "(n, x) \<in> set ?d0 \<and> n \<notin> name ` set (take j (c # cs))"
          then have "n \<noteq> name c" "n \<notin> name ` set (take i cs)" by (auto simp: Suc)
          with nx da(3) dict_set_other [of n x ?d0 "name c" k] show "(n, x) \<in> set d" by blast
        qed
        have "(?e0 # evs) ! j = EvRun ((c # cs) ! j) d a" using da(1) by (simp add: Suc)
        with k1 k2 show ?thesis by blast
      qed
    qed
    have c1: "calls st' = calls st @ (?e0 # evs)" using evs(1) by simp
    have c2: "length (?e0 # evs) \<le> length (c # cs)" using evs(2) by simp
    have c3: "r = None \<longrightarrow> length (?e0 # evs) = length (c # cs)" using evs(3) by simp
    show ?thesis
      by (rule exI [of _ "?e0 # evs"]) (intro conjI c1 c2 c3 all)
  qed
qed

lemma run_loop_final:
  "run_loop eng v cs st = (r, st') \<Longrightarrow>
   (\<forall>n x. (n, x) \<in> set (env_dict st v) \<and> n \<notin> name ` set cs \<longrightarrow> (n, x) \<in> set (env_dict st' v))"
proof (induction cs arbitrary: st)
  case Nil
  then show ?case by simp
next
  case (Cons c cs)
  let ?d0 = "env_dict st v"
  let ?a = "docker_run eng (calls st) c ?d0"
  let ?e0 = "EvRun c ?d0 ?a"
  let ?st0 = "st\<lparr>calls := calls st @ [?e0]\<rparr>"
  show ?case
  proof (cases ?a)
    case (Inl e)
    with Cons.prems have "st' = ?st0" by (auto simp: Let_def)
    then show ?thesis by (simp add: env_dict_def)
  next
    case (Inr k)
    let ?d1 = "dict_set ?d0 (name c) k"
    let ?st1 = "?st0\<lparr>ENV_CONTAINERS := (ENV_CONTAINERS ?st0)(v \<mapsto> ?d1)\<rparr>"
    have d1: "env_dict ?st1 v = ?d1" by (simp add: env_dict_def)
    from Cons.prems Inr have "run_loop eng v cs ?st1 = (r, st')"
      by (simp add: Let_def)
    from Cons.IH [OF this] show ?thesis
      unfolding d1 by (auto intro: dict_set_other)
  qed
qed

lemma run_loop_registered:
  "distinct (map name cs) \<Longrightarrow> run_loop eng v cs st = (r, st') \<Longrightarrow>
   calls st' = calls st @ evs \<Longrightarrow> i < length evs \<Longrightarrow> evs ! i = EvRun c d (Inr k) \<Longrightarrow>
   (name c, k) \<in> set (env_dict st' v) \<and>
   (\<forall>j d' a. i < j \<and> j < length evs \<and> evs ! j = EvRun (cs ! j) d' a \<longrightarrow> (name c, k) \<in> set d')"
proof (induction cs arbitrary: st evs i)
  case Nil
  then show ?case by simp
next
  case (Cons c0 cs)
  let ?d0 = "env_dict st v"
  let ?a = "docker_run eng (calls st) c0 ?d0"
  let ?e0 = "EvRun c0 ?d0 ?a"
  let ?st0 = "st\<lparr>calls := calls st @ [?e0]\<rparr>"
  show ?case
  proof (cases ?a)
    case (Inl e)
    with Cons.prems(2) have "st' = ?st0" by (auto simp: Let_def)
    with Cons.prems(3) have "evs = [?e0]" by simp
    with Cons.prems(4,5) Inl show ?thesis by simp
  next
    case (Inr k0)
    let ?d1 = "dict_set ?d0 (name c0) k0"
    let ?st1 = "?st0\<lparr>ENV_CONTAINERS := (ENV_CONTAINERS ?st0)(v \<mapsto> ?d1)\<rparr>"
    have d1: "env_dict ?st1 v = ?d1" by (simp add: env_dict_def)
    from Cons.prems(2) Inr have run: "run_loop eng v cs ?st1 = (r, st')"
      by (simp add: Let_def)
    from run_loop_calls [OF run] obtain evs' where evs': "calls st' = calls ?st1 @ evs'"
      and all: "\<forall>j < length evs'. \<exists>d a. evs' ! j = EvRun (cs ! j) d a \<and>
        fst ` set d = fst ` set (env_dict ?st1 v) \<union> name ` set (take j cs) \<and>
        (\<forall>n x. (n, x) \<in> set (env_dict ?st1 v) \<and> n \<notin> name ` set (take j cs) \<longrightarrow> (n, x) \<in> set d)"
      by (elim exE conjE)
    have each: "\<exists>d a. evs' ! j = EvRun (cs ! j) d a \<and>
        (\<forall>n x. (n, x) \<in> set ?d1 \<and> n \<notin> name ` set (take j cs) \<longrightarrow> (n, x) \<in> set d)"
      if "j < length evs'" for j
    proof -
      from all that obtain d a where "evs' ! j = EvRun (cs ! j) d a"
        "\<forall>n x. (n, x) \<in> set (env_dict ?st1 v) \<and> n \<notin> name ` set (take j cs) \<longrightarrow> (n, x) \<in> set d"
        by meson
      then show ?thesis unfolding d1 by (intro exI conjI)
    qed
    from evs' Cons.prems(3) have evs: "evs = ?e0 # evs'" by simp
    from Cons.prems(1) have dist: "distinct (map name cs)" and c0: "name c0 \<notin> name ` set cs"
      by auto
    show ?thesis
    proof (cases i)
      case 0
      with Cons.prems(5) evs Inr have ck: "c = c0" "k = k0" by auto
      have "(name c0, k0) \<in> set ?d1" by (rule dict_set_mem)
      with run_loop_final [OF run] c0 have fin: "(name c0, k0) \<in> set (env_dict st' v)"
        unfolding d1 by blast
      have "(name c0, k0) \<in> set d'"
        if j: "0 < j" "j < length evs" "evs ! j = EvRun ((c0 # cs) ! j) d' a" for j d' a
      proof -
        from j(1) obtain j' where j': "j = Suc j'" by (cases j) auto
        with j(2) evs have lt: "j' < length evs'" by simp
        from each [OF lt] obtain d2 a2 where d2: "evs' ! j' = EvRun (cs ! j') d2 a2"
          "\<forall>n x. (n, x) \<in> set ?d1 \<and> n \<notin> name ` set (take j' cs) \<longrightarrow> (n, x) \<in> set d2"
          by blast
        from j(3) evs j' d2(1) have "d' = d2" by simp
        moreover have "name c0 \<notin> name ` set (take j' cs)"
          using c0 by (auto dest: in_set_takeD)
        ultimately show ?thesis using d2(2) dict_set_mem [of "name c0" k0 ?d0] by simp
      qed
      then have "\<forall>j d' a. 0 < j \<and> j < length evs \<and> evs ! j = EvRun ((c0 # cs) ! j) d' a
                   \<longrightarrow> (name c0, k0) \<in> set d'"
        by (intro allI impI) (elim conjE)
      with fin show ?thesis unfolding ck 0 by (intro conjI)
    next
      case (Suc i')
      with Cons.prems(4,5) evs have i': "i' < length evs'" "evs' ! i' = EvRun c d (Inr k)"
        by auto
      note IH0 = Cons.IH [OF dist run evs' i']
      note IH = IH0 [THEN conjunct1] IH0 [THEN conjunct2]
      have "(name c, k) \<in> set d'"
        if j: "i < j" "j < length evs" "evs ! j = EvRun ((c0 # cs) ! j) d' a" for j d' a
      proof -
        from j(1) obtain j' where j': "j = Suc j'" by (cases j) auto
        with j Suc evs have "i' < j'" "j' < length evs'" "evs' ! j' = EvRun (cs ! j') d' a"
          by auto
        with IH(2) show ?thesis by meson
      qed
      then have "\<forall>j d' a. i < j \<and> j < length evs \<and> evs ! j = EvRun ((c0 # cs) ! j) d' a
                   \<longrightarrow> (name c, k) \<in> set d'"
        by (intro allI impI) (elim conjE)
      with IH(1) show ?thesis by (intro conjI)
    qed
  qed
qed

lemma pre_cases [consumes 1, case_names resolve_failed pull_failed run_failed health_raised injected]:
  assumes "tox_runtest_pre eng venv st = (out, venv', st')"
  obtains
    e where "resolve_container_set (CONTAINER_CONFIGS st) (docker venv) = Inl e"
      "out = Some e" "venv' = venv" "st' = st"
  | cs e where "resolve_container_set (CONTAINER_CONFIGS st) (docker venv) = Inr cs"
      "pull_loop eng cs st = (Some e, st')" "out = Some e" "venv' = venv"
  | cs st1 e where "resolve_container_set (CONTAINER_CONFIGS st) (docker venv) = Inr cs"
      "pull_loop eng cs st = (None, st1)"
      "run_loop eng (venv_id venv) cs (setdefault_env (venv_id venv) st1) = (Some e, st')"
      "out = Some e" "venv' = venv"
  | cs st1 st2 e where "resolve_container_set (CONTAINER_CONFIGS st) (docker venv) = Inr cs"
      "pull_loop eng cs st = (None, st1)"
      "run_loop eng (venv_id venv) cs (setdefault_env (venv_id venv) st1) = (None, st2)"
      "health_loop eng (env_dict st2 (venv_id venv)) st2 = (Some e, st')"
      "out = Some e" "venv' = venv"
  | cs st1 st2 env' where "resolve_container_set (CONTAINER_CONFIGS st) (docker venv) = Inr cs"
      "pull_loop eng cs st = (None, st1)"
      "run_loop eng (venv_id venv) cs (setdefault_env (venv_id venv) st1) = (None, st2)"
      "health_loop eng (env_dict st2 (venv_id venv)) st2 = (None, st')"
      "inject_loop eng (CONTAINER_CONFIGS st') (env_dict st' (venv_id venv)) (setenv venv) = (out, env')"
      "venv' = venv\<lparr>setenv := env'\<rparr>"
proof -
  note pre = assms [unfolded tox_runtest_pre_def]
  let ?v = "venv_id venv"
  show thesis
  proof (cases "resolve_container_set (CONTAINER_CONFIGS st) (docker venv)")
    case (Inl e)
    with pre have "out = Some e" "venv' = venv" "st' = st" by simp_all
    with Inl show thesis by (rule that(1))
  next
    case (Inr cs)
    obtain r1 st1 where pl: "pull_loop eng cs st = (r1, st1)"
      by (cases "pull_loop eng cs st")
    show thesis
    proof (cases r1)
      case (Some e)
      with pre Inr pl have "out = Some e" "venv' = venv" "st' = st1" by simp_all
      with Inr pl Some show thesis by (intro that(2)) simp_all
    next
      case None
      note r1 = None
      obtain r2 st2 where rl: "run_loop eng ?v cs (setdefault_env ?v st1) = (r2, st2)"
        by (cases "run_loop eng ?v cs (setdefault_env ?v st1)")
      show thesis
      proof (cases r2)
        case (Some e)
        with pre Inr pl r1 rl have "out = Some e" "venv' = venv" "st' = st2" by simp_all
        with Inr pl r1 rl Some show thesis by (intro that(3)) simp_all
      next
        case None
        note r2 = None
        obtain r3 st3 where hl: "health_loop eng (env_dict st2 ?v) st2 = (r3, st3)"
          by (cases "health_loop eng (env_dict st2 ?v) st2")
        show thesis
        proof (cases r3)
          case (Some e)
          with pre Inr pl r1 rl r2 hl have "out = Some e" "venv' = venv" "st' = st3" by simp_all
          with Inr pl r1 rl r2 hl Some show thesis by (intro that(4)) simp_all
        next
          case None
          obtain r4 env' where il:
            "inject_loop eng (CONTAINER_CONFIGS st3) (env_dict st3 ?v) (setenv venv) = (r4, env')"
            by (cases "inject_loop eng (CONTAINER_CONFIGS st3) (env_dict st3 ?v) (setenv venv)")
          with pre Inr pl r1 rl r2 hl None have "out = r4" "venv' = venv\<lparr>setenv := env'\<rparr>" "st' = st3"
            by simp_all
          with Inr pl r1 rl r2 hl None il show thesis by (intro that(5)) simp_all
        qed
      qed
    qed
  qed
qed

lemma resolve_container_set_fails:
  assumes "(\<exists>n \<in> set ns. cfgs n = None) \<or> \<not> distinct ns"
  shows "\<exists>n \<in> set ns. resolve_container_set cfgs ns = Inl (ValueError_missing n)
                      \<or> resolve_container_set cfgs ns = Inl (ValueError_twice n)"
proof -
  from assms obtain e where e: "resolve_loop cfgs ns [] [] = Inl e"
    using resolve_loop_fails [of ns cfgs "[]" "[]"] by auto
  from resolve_loop_err [OF e] e show ?thesis
    by (auto simp: resolve_container_set_def)
qed

lemma resolve_container_set_ok:
  assumes "\<forall>n \<in> set ns. cfgs n \<noteq> None" and "distinct ns"
  shows "\<exists>cs. resolve_container_set cfgs ns = Inr cs \<and> map cfgs ns = map Some cs"
proof -
  from assms have "set ns \<subseteq> dom cfgs" by auto
  from resolve_loop_ok [OF this assms(2), of "[]" "[]"] show ?thesis
    by (simp add: resolve_container_set_def)
qed

lemma run_loop_runs:
  assumes "run_loop eng v cs st = (r, st')"
  shows "\<exists>evs. calls st' = calls st @ evs \<and> (\<forall>e \<in> set evs. is_run e)"
proof -
  from run_loop_calls [OF assms] obtain evs where evs: "calls st' = calls st @ evs"
    and each: "\<forall>j < length evs. \<exists>d a. evs ! j = EvRun (cs ! j) d a \<and>
        fst ` set d = fst ` set (env_dict st v) \<union> name ` set (take j cs) \<and>
        (\<forall>n x. (n, x) \<in> set (env_dict st v) \<and> n \<notin> name ` set (take j cs) \<longrightarrow> (n, x) \<in> set d)"
    by blast
  have "is_run e" if "e \<in> set evs" for e
  proof -
    from that obtain j where j: "j < length evs" "evs ! j = e" by (auto simp: in_set_conv_nth)
    with each obtain d a where "e = EvRun (cs ! j) d a" by metis
    then show ?thesis by simp
  qed
  with evs show ?thesis by blast
qed

lemma pre_log:
  assumes "tox_runtest_pre eng venv st = (out, venv', st')"
  shows "\<exists>P R H. calls st' = calls st @ P @ R @ H \<and>
           (\<forall>e \<in> set P. is_pull e) \<and> (\<forall>e \<in> set R. is_run e) \<and> (\<forall>e \<in> set H. is_health e) \<and>
           (\<forall>e \<in> set (butlast H). \<not> health_failed e) \<and>
           prefix (health_checked H) (map snd (env_dict st' (venv_id venv))) \<and>
           (R @ H \<noteq> [] \<longrightarrow>
              (\<exists>cs. resolve_container_set (CONTAINER_CONFIGS st) (docker venv) = Inr cs \<and>
                    P = map (\<lambda>c. EvPull c None) cs)) \<and>
           ((\<exists>e \<in> set P. pull_failed e) \<longrightarrow>
              R @ H = [] \<and> (\<exists>c e. out = Some e \<and> last P = EvPull c (Some e)) \<and>
              ENV_CONTAINERS st' = ENV_CONTAINERS st \<and> venv' = venv)"
  using assms
proof (cases rule: pre_cases)
  case (resolve_failed e)
  then show ?thesis
    by (intro exI [of _ "[]"]) simp
next
  case (pull_failed cs e)
  from pull_loop_fail [OF pull_failed(2)] obtain k where k: "k < length cs"
    and st': "st' = st\<lparr>calls := calls st @ map (\<lambda>c. EvPull c None) (take k cs)
                                          @ [EvPull (cs ! k) (Some e)]\<rparr>"
    by blast
  let ?P = "map (\<lambda>c. EvPull c None) (take k cs) @ [EvPull (cs ! k) (Some e)]"
  have "calls st' = calls st @ ?P @ [] @ []" using st' by simp
  moreover have "\<forall>e \<in> set ?P. is_pull e" by auto
  moreover have "ENV_CONTAINERS st' = ENV_CONTAINERS st" using st' by simp
  moreover have "last ?P = EvPull (cs ! k) (Some e)" by simp
  ultimately show ?thesis using pull_failed(3,4)
    by (intro exI [of _ ?P] exI [of _ "[]"]) simp
next
  case (run_failed cs st1 e)
  let ?P = "map (\<lambda>c. EvPull c None) cs"
  from pull_loop_ok [OF run_failed(2)] have st1: "st1 = st\<lparr>calls := calls st @ ?P\<rparr>" .
  from run_loop_runs [OF run_failed(3)] obtain R where
    R: "calls st' = calls (setdefault_env (venv_id venv) st1) @ R" "\<forall>e \<in> set R. is_run e"
    by blast
  have "calls st' = calls st @ ?P @ R @ []"
    using R(1) st1 by (simp add: setdefault_env_frame)
  moreover have "\<forall>e \<in> set ?P. is_pull e" "\<not> (\<exists>e \<in> set ?P. pull_failed e)" by auto
  ultimately show ?thesis using R(2) run_failed(1)
    by (intro exI [of _ ?P] exI [of _ R] exI [of _ "[]"]) simp
next
  case (health_raised cs st1 st2 e)
  let ?P = "map (\<lambda>c. EvPull c None) cs"
  from pull_loop_ok [OF health_raised(2)] have st1: "st1 = st\<lparr>calls := calls st @ ?P\<rparr>" .
  from run_loop_runs [OF health_raised(3)] obtain R where
    R: "calls st2 = calls (setdefault_env (venv_id venv) st1) @ R" "\<forall>e \<in> set R. is_run e"
    by blast
  from health_loop_calls [OF health_raised(4)] obtain H where H: "calls st' = calls st2 @ H"
    "\<forall>e \<in> set H. is_health e" "\<forall>e \<in> set (butlast H). \<not> health_failed e"
    "prefix (health_checked H) (map snd (env_dict st2 (venv_id venv)))"
    by blast
  from health_loop_frame [OF health_raised(4)]
  have "env_dict st' (venv_id venv) = env_dict st2 (venv_id venv)"
    by (simp add: env_dict_def)
  with H(4) have pre: "prefix (health_checked H) (map snd (env_dict st' (venv_id venv)))"
    by simp
  have "calls st' = calls st @ ?P @ R @ H"
    using H(1) R(1) st1 by (simp add: setdefault_env_frame)
  moreover have "\<forall>e \<in> set ?P. is_pull e" "\<not> (\<exists>e \<in> set ?P. pull_failed e)" by auto
  ultimately show ?thesis using R(2) H(2,3) pre health_raised(1)
    by (intro exI [of _ ?P] exI [of _ R] exI [of _ H]) simp
next
  case (injected cs st1 st2 env')
  let ?P = "map (\<lambda>c. EvPull c None) cs"
  from pull_loop_ok [OF injected(2)] have st1: "st1 = st\<lparr>calls := calls st @ ?P\<rparr>" .
  from run_loop_runs [OF injected(3)] obtain R where
    R: "calls st2 = calls (setdefault_env (venv_id venv) st1) @ R" "\<forall>e \<in> set R. is_run e"
    by blast
  from health_loop_calls [OF injected(4)] obtain H where H: "calls st' = calls st2 @ H"
    "\<forall>e \<in> set H. is_health e" "\<forall>e \<in> set (butlast H). \<not> health_failed e"
    "prefix (health_checked H) (map snd (env_dict st2 (venv_id venv)))"
    by blast
  from health_loop_frame [OF injected(4)]
  have "env_dict st' (venv_id venv) = env_dict st2 (venv_id venv)"
    by (simp add: env_dict_def)
  with H(4) have pre: "prefix (health_checked H) (map snd (env_dict st' (venv_id venv)))"
    by simp
  have "calls st' = calls st @ ?P @ R @ H"
    using H(1) R(1) st1 by (simp add: setdefault_env_frame)
  moreover have "\<forall>e \<in> set ?P. is_pull e" "\<not> (\<exists>e \<in> set ?P. pull_failed e)" by auto
  ultimately show ?thesis using R(2) H(2,3) pre injected(1)
    by (intro exI [of _ ?P] exI [of _ R] exI [of _ H]) simp
qed

lemma split_order:
  assumes "\<forall>e \<in> set P. \<not> q e" "\<forall>e \<in> set Q. \<not> p e"
    and "i < length (P @ Q)" "j < length (P @ Q)" "q ((P @ Q) ! i)" "p ((P @ Q) ! j)"
  shows "j < i"
proof -
  have "\<not> i < length P"
  proof
    assume "i < length P"
    then have "(P @ Q) ! i \<in> set P" by (simp add: nth_append)
    with assms(1,5) show False by blast
  qed
  moreover have "j < length P"
  proof (rule ccontr)
    assume "\<not> j < length P"
    with assms(4) have "(P @ Q) ! j \<in> set Q" by (simp add: nth_append)
    with assms(2,6) show False by blast
  qed
  ultimately show ?thesis by simp
qed

lemma failed_is_last:
  assumes "\<forall>e \<in> set P. \<not> f e" "\<forall>e \<in> set (butlast H). \<not> f e"
    and "i < length (P @ H)" "f ((P @ H) ! i)"
  shows "Suc i = length (P @ H)"
proof -
  have ge: "\<not> i < length P"
  proof
    assume "i < length P"
    then have "(P @ H) ! i \<in> set P" by (simp add: nth_append)
    with assms(1,4) show False by blast
  qed
  let ?i = "i - length P"
  from ge assms(3) have lt: "?i < length H" by simp
  have "\<not> Suc ?i < length H"
  proof
    assume "Suc ?i < length H"
    then have "?i < length (butlast H)" by simp
    then have "butlast H ! ?i \<in> set (butlast H)" by (rule nth_mem)
    moreover from \<open>?i < length (butlast H)\<close> have "butlast H ! ?i = H ! ?i" by (rule nth_butlast)
    moreover from ge have "(P @ H) ! i = H ! ?i" by (simp add: nth_append)
    ultimately show False using assms(2,4) by auto
  qed
  with lt ge show ?thesis by simp
qed

lemma health_checked_append:
  "\<forall>e \<in> set xs. \<not> is_health e \<Longrightarrow> health_checked (xs @ ys) = health_checked ys"
proof (induction xs)
  case Nil
  then show ?case by simp
next
  case (Cons x xs)
  then show ?case by (cases x) simp_all
qed

lemma event_kinds:
  "is_pull e \<Longrightarrow> \<not> is_run e" "is_pull e \<Longrightarrow> \<not> is_health e"
  "is_run e \<Longrightarrow> \<not> is_pull e" "is_run e \<Longrightarrow> \<not> is_health e"
  "is_health e \<Longrightarrow> \<not> is_pull e" "is_health e \<Longrightarrow> \<not> is_run e"
  "pull_failed e \<Longrightarrow> is_pull e" "health_failed e \<Longrightarrow> is_health e"
  by (cases e; simp; fail)+

lemma resolve_container_set_Inr:
  assumes "resolve_container_set cfgs ns = Inr cs"
  shows "map cfgs ns = map Some cs \<and> distinct ns"
proof (cases "(\<exists>n \<in> set ns. cfgs n = None) \<or> \<not> distinct ns")
  case True
  from resolve_container_set_fails [OF this] assms show ?thesis by auto
next
  case False
  then have ok: "\<forall>n \<in> set ns. cfgs n \<noteq> None" "distinct ns" by auto
  from resolve_container_set_ok [OF ok] assms ok(2) show ?thesis by auto
qed

lemma keyed_names:
  "keyed_by_name cfgs ns \<Longrightarrow> map cfgs ns = map Some cs \<Longrightarrow> map name cs = ns"
proof (induction ns arbitrary: cs)
  case Nil
  then show ?case by simp
next
  case (Cons n ns)
  from Cons.prems(2) obtain c cs' where cs: "cs = c # cs'" "cfgs n = Some c"
    "map cfgs ns = map Some cs'"
    by (cases cs) auto
  from Cons.prems(1) cs(2) have "name c = n" "keyed_by_name cfgs ns"
    by (simp_all add: keyed_by_name_def)
  with Cons.IH [OF _ cs(3)] cs(1) show ?case by simp
qed

lemma run_loop_registered_set:
  assumes "distinct (map name cs)" "run_loop eng v cs st = (r, st')"
    "calls st' = calls st @ evs" "EvRun c d (Inr k) \<in> set evs"
  shows "(name c, k) \<in> set (env_dict st' v)"
proof -
  from assms(4) obtain i where "i < length evs" "evs ! i = EvRun c d (Inr k)"
    by (auto simp: in_set_conv_nth)
  from run_loop_registered [OF assms(1,2,3) this] show ?thesis by (rule conjunct1)
qed

lemma pre_registered:
  assumes pre: "tox_runtest_pre eng venv st = (out, venv', st')"
    and keyed: "keyed_by_name (CONTAINER_CONFIGS st) (docker venv)"
    and ev: "EvRun c d (Inr k) \<in> set (new_calls st st')"
  shows "(name c, k) \<in> set (env_dict st' (venv_id venv))"
  using pre
proof (cases rule: pre_cases)
  case (resolve_failed e)
  with ev show ?thesis by (simp add: new_calls_def)
next
  case (pull_failed cs e)
  from pull_loop_fail [OF pull_failed(2)] obtain j where
    "st' = st\<lparr>calls := calls st @ map (\<lambda>c. EvPull c None) (take j cs)
                                          @ [EvPull (cs ! j) (Some e)]\<rparr>"
    by blast
  with ev show ?thesis by (auto simp: new_calls_def)
next
  case (run_failed cs st1 e)
  let ?v = "venv_id venv"
  from resolve_container_set_Inr [OF run_failed(1)] keyed have dist: "distinct (map name cs)"
    by (auto dest: keyed_names)
  from pull_loop_ok [OF run_failed(2)]
  have st1: "st1 = st\<lparr>calls := calls st @ map (\<lambda>c. EvPull c None) cs\<rparr>" .
  from run_loop_runs [OF run_failed(3)] obtain R where
    R: "calls st' = calls (setdefault_env ?v st1) @ R" by blast
  then have "new_calls st st' = map (\<lambda>c. EvPull c None) cs @ R"
    using st1 by (simp add: new_calls_def setdefault_env_frame)
  with ev have "EvRun c d (Inr k) \<in> set R" by auto
  from run_loop_registered_set [OF dist run_failed(3) R this] show ?thesis .
next
  case (health_raised cs st1 st2 e)
  let ?v = "venv_id venv"
  from resolve_container_set_Inr [OF health_raised(1)] keyed have dist: "distinct (map name cs)"
    by (auto dest: keyed_names)
  from pull_loop_ok [OF health_raised(2)]
  have st1: "st1 = st\<lparr>calls := calls st @ map (\<lambda>c. EvPull c None) cs\<rparr>" .
  from run_loop_runs [OF health_raised(3)] obtain R where
    R: "calls st2 = calls (setdefault_env ?v st1) @ R" by blast
  from health_loop_calls [OF health_raised(4)] obtain H where
    H: "calls st' = calls st2 @ H" "\<forall>e \<in> set H. is_health e" by blast
  have "new_calls st st' = map (\<lambda>c. EvPull c None) cs @ R @ H"
    using st1 R H(1) by (simp add: new_calls_def setdefault_env_frame)
  with ev H(2) have "EvRun c d (Inr k) \<in> set R" by auto
  from run_loop_registered_set [OF dist health_raised(3) R this]
  have "(name c, k) \<in> set (env_dict st2 ?v)" .
  with health_loop_frame [OF health_raised(4)] show ?thesis by (simp add: env_dict_def)
next
  case (injected cs st1 st2 env')
  let ?v = "venv_id venv"
  from resolve_container_set_Inr [OF injected(1)] keyed have dist: "distinct (map name cs)"
    by (auto dest: keyed_names)
  from pull_loop_ok [OF injected(2)]
  have st1: "st1 = st\<lparr>calls := calls st @ map (\<lambda>c. EvPull c None) cs\<rparr>" .
  from run_loop_runs [OF injected(3)] obtain R where
    R: "calls st2 = calls (setdefault_env ?v st1) @ R" by blast
  from health_loop_calls [OF injected(4)] obtain H where
    H: "calls st' = calls st2 @ H" "\<forall>e \<in> set H. is_health e" by blast
  have "new_calls st st' = map (\<lambda>c. EvPull c None) cs @ R @ H"
    using st1 R H(1) by (simp add: new_calls_def setdefault_env_frame)
  with ev H(2) have "EvRun c d (Inr k) \<in> set R" by auto
  from run_loop_registered_set [OF dist injected(3) R this]
  have "(name c, k) \<in> set (env_dict st2 ?v)" .
  with health_loop_frame [OF injected(4)] show ?thesis by (simp add: env_dict_def)
qed









lemma update_if_not_present_eq: "update_if_not_present env vars = map_of vars ++ env"
proof (induction vars arbitrary: env)
  case Nil
  then show ?case by simp
next
  case (Cons p vars)
  obtain a b where p: "p = (a, b)" by (cases p)
  have "update_if_not_present env (p # vars) =
        update_if_not_present (if env a = None then env(a \<mapsto> b) else env) vars"
    by (simp add: p)
  also have "\<dots> = map_of vars ++ (if env a = None then env(a \<mapsto> b) else env)"
    by (rule Cons.IH)
  also have "\<dots> = map_of (p # vars) ++ env"
    unfolding p by (rule ext) (auto simp: map_add_def split: option.splits)
  finally show ?case .
qed

lemma inject_loop_all:
  "inject_loop eng cfgs d env = (None, env') \<Longrightarrow>
   env' = map_of (exported_by_all eng cfgs d) ++ env"
proof (induction d arbitrary: env)
  case Nil
  then show ?case by simp
next
  case (Cons p d)
  obtain n k where p: "p = (n, k)" by (cases p)
  from Cons.prems obtain cc where cc: "cfgs n = Some cc"
    by (cases "cfgs n") (simp_all add: p)
  from Cons.prems cc obtain vars where vars: "get_env_vars eng cc k = Inr vars"
    by (cases "get_env_vars eng cc k") (simp_all add: p)
  from Cons.prems cc vars
  have "inject_loop eng cfgs d (update_if_not_present env vars) = (None, env')"
    by (simp add: p)
  from Cons.IH [OF this]
  have "env' = map_of (exported_by_all eng cfgs d) ++ (map_of vars ++ env)"
    by (simp add: update_if_not_present_eq)
  then show ?case by (simp add: p cc vars)
qed

lemma containers_and_configs_ok:
  "\<forall>n \<in> fst ` set d. cfgs n \<noteq> None \<Longrightarrow>
   \<exists>ccs. containers_and_configs cfgs d = Inr ccs \<and> map snd ccs = map snd d \<and>
         map (\<lambda>(c, k). Some c) ccs = map (\<lambda>(n, k). cfgs n) d"
proof (induction d)
  case Nil
  then show ?case by simp
next
  case (Cons p d)
  obtain n k where p: "p = (n, k)" by (cases p)
  from Cons.prems obtain cc where cc: "cfgs n = Some cc" by (auto simp: p)
  from Cons.prems have "\<forall>n \<in> fst ` set d. cfgs n \<noteq> None" by simp
  from Cons.IH [OF this] obtain ccs where "containers_and_configs cfgs d = Inr ccs"
    "map snd ccs = map snd d" "map (\<lambda>(c, k). Some c) ccs = map (\<lambda>(n, k). cfgs n) d"
    by blast
  with cc show ?case by (simp add: p)
qed

lemma validate_dont_stop_ok:
  "\<forall>x \<in> set ds. x \<in> set names \<Longrightarrow> validate_dont_stop names ds = None"
  by (induction ds) simp_all

lemma validate_dont_stop_first:
  "\<exists>x \<in> set ds. x \<notin> set names \<Longrightarrow>
   \<exists>known x rest. ds = known @ x # rest \<and> (\<forall>y \<in> set known. y \<in> set names) \<and> x \<notin> set names \<and>
      validate_dont_stop names ds = Some (ValueError_dont_stop x)"
proof (induction ds)
  case Nil
  then show ?case by simp
next
  case (Cons a ds)
  show ?case
  proof (cases "a \<in> set names")
    case False
    then have "a # ds = [] @ a # ds \<and> (\<forall>y \<in> set []. y \<in> set names) \<and> a \<notin> set names \<and>
      validate_dont_stop names (a # ds) = Some (ValueError_dont_stop a)"
      by simp
    then show ?thesis by blast
  next
    case True
    with Cons.prems have "\<exists>x \<in> set ds. x \<notin> set names" by auto
    from Cons.IH [OF this] obtain known x rest where IH: "ds = known @ x # rest"
      "\<forall>y \<in> set known. y \<in> set names" "x \<notin> set names"
      "validate_dont_stop names ds = Some (ValueError_dont_stop x)"
      by blast
    with True have "a # ds = (a # known) @ x # rest \<and> (\<forall>y \<in> set (a # known). y \<in> set names) \<and>
      x \<notin> set names \<and> validate_dont_stop names (a # ds) = Some (ValueError_dont_stop x)"
      by simp
    then show ?thesis by blast
  qed
qed

text \<open>The setup hook on the concrete inputs.\<close>

lemma pre_unhealthy_web_db:
  "tox_runtest_pre eng_unhealthy (venv_ex [''web'', ''db'']) st_ex =
     (None,
      (venv_ex [''web'', ''db''])\<lparr>setenv := [''db_HOST'' \<mapsto> ''localhost'', ''web_HOST'' \<mapsto> ''127.0.0.1'']\<rparr>,
      st_ex\<lparr>ENV_CONTAINERS := [0 \<mapsto> [(''web'', Container ''web''), (''db'', Container ''db'')]],
            calls := [EvPull cfg_web None, EvPull cfg_db None,
                      EvRun cfg_web [] (Inr (Container ''web'')),
                      EvRun cfg_db [(''web'', Container ''web'')] (Inr (Container ''db'')),
                      EvHealth cfg_web (Container ''web'') (Some HealthCheckFailed)]\<rparr>)"
  by (simp add: ex_defs run_defs)

lemma pre_ok_db_web:
  "tox_runtest_pre eng_ok (venv_ex [''db'', ''web'']) st_ex =
     (None,
      (venv_ex [''db'', ''web''])\<lparr>setenv := [''db_HOST'' \<mapsto> ''localhost'', ''web_HOST'' \<mapsto> ''127.0.0.1'']\<rparr>,
      st_ex\<lparr>ENV_CONTAINERS := [0 \<mapsto> [(''db'', Container ''db''), (''web'', Container ''web'')]],
            calls := [EvPull cfg_db None, EvPull cfg_web None,
                      EvRun cfg_db [] (Inr (Container ''db'')),
                      EvRun cfg_web [(''db'', Container ''db'')] (Inr (Container ''web'')),
                      EvHealth cfg_db (Container ''db'') None,
                      EvHealth cfg_web (Container ''web'') None]\<rparr>)"
  by (simp add: ex_defs run_defs)

lemma pre_pull_fails_db_web:
  "tox_runtest_pre eng_pull_fails (venv_ex [''db'', ''web'']) st_ex =
     (Some (OtherError ''pull failed''), venv_ex [''db'', ''web''],
      st_ex\<lparr>calls := [EvPull cfg_db (Some (OtherError ''pull failed''))]\<rparr>)"
  by (simp add: ex_defs run_defs)



lemma pre_unhealthy_a_b:
  "tox_runtest_pre eng_unhealthy (venv_ex [''a'', ''b'']) st_ex =
     (None,
      (venv_ex [''a'', ''b''])\<lparr>setenv := [''db_HOST'' \<mapsto> ''localhost'', ''a_HOST'' \<mapsto> ''127.0.0.1'',
                                          ''b_HOST'' \<mapsto> ''127.0.0.1'']\<rparr>,
      st_ex\<lparr>ENV_CONTAINERS := [0 \<mapsto> [(''a'', Container ''a''), (''b'', Container ''b'')]],
            calls := [EvPull cfg_a None, EvPull cfg_b None,
                      EvRun cfg_a [] (Inr (Container ''a'')),
                      EvRun cfg_b [(''a'', Container ''a'')] (Inr (Container ''b'')),
                      EvHealth cfg_a (Container ''a'') (Some HealthCheckFailed)]\<rparr>)"
  by (simp add: ex_defs run_defs)


text \<open>The teardown hook on a concrete input.\<close>

lemma post_running:
  "tox_runtest_post eng_ok (venv_ex [''db'', ''web'']) st_running =
     (None, st_running\<lparr>calls := [EvStop [(cfg_db, Container ''db''), (cfg_web, Container ''web'')] None]\<rparr>)"
  by (simp add: ex_defs run_defs)

section \<open>The claims\<close>

subsection \<open>Resolving the container set of an environment\<close>

text \<open>
  Claim C7. Resolving the container set of a test environment fails with a configuration
  error if and only if the declared list references a name that is absent from the
  registry or repeats a name; otherwise it succeeds and yields the configurations of the
  declared names, in the declared order.
\<close>

theorem resolve_container_set_iff:
  "((\<exists>n \<in> set ns. resolve_container_set cfgs ns = Inl (ValueError_missing n)
                 \<or> resolve_container_set cfgs ns = Inl (ValueError_twice n))
    \<longleftrightarrow> (\<exists>n \<in> set ns. cfgs n = None) \<or> \<not> distinct ns)
   \<and> ((\<forall>n \<in> set ns. cfgs n \<noteq> None) \<and> distinct ns \<longrightarrow>
        (\<exists>cs. resolve_container_set cfgs ns = Inr cs \<and> map cfgs ns = map Some cs))"
proof (cases "(\<exists>n \<in> set ns. cfgs n = None) \<or> \<not> distinct ns")
  case True
  from resolve_container_set_fails [OF this] True show ?thesis by blast
next
  case False
  then have "\<forall>n \<in> set ns. cfgs n \<noteq> None" "distinct ns" by auto
  from resolve_container_set_ok [OF this] False show ?thesis by auto
qed

theorem resolve_container_set_iff_witness:
  "(registry_ex ''db'' \<noteq> None \<and> registry_ex ''web'' \<noteq> None \<and> distinct [''db'', ''web''] \<and>
    resolve_container_set registry_ex [''db'', ''web''] = Inr [cfg_db, cfg_web]) \<and>
   (registry_ex ''ghost'' = None \<and>
    resolve_container_set registry_ex [''ghost''] = Inl (ValueError_missing ''ghost'')) \<and>
   (\<not> distinct [''db'', ''db''] \<and>
    resolve_container_set registry_ex [''db'', ''db''] = Inl (ValueError_twice ''db''))"
  using resolve_container_set_iff [of "[''db'', ''web'']" registry_ex]
    resolve_container_set_iff [of "[''ghost'']" registry_ex]
    resolve_container_set_iff [of "[''db'', ''db'']" registry_ex]
  by (simp add: ex_defs resolve_container_set_def)

text \<open>
  Claim C5. When the declared list of a test environment references a name that is absent
  from the registry or repeats a name, \<open>tox_runtest_pre\<close> raises the configuration error
  before any engine call: the log of calls, the registry of running containers and the
  environment's variables are as they were, so nothing was pulled, started, health-checked,
  stopped or registered.
\<close>

theorem invalid_list_fails_before_engine:
  assumes "(\<exists>n \<in> set (docker venv). CONTAINER_CONFIGS st n = None) \<or> \<not> distinct (docker venv)"
  shows "\<exists>n \<in> set (docker venv).
           tox_runtest_pre eng venv st = (Some (ValueError_missing n), venv, st) \<or>
           tox_runtest_pre eng venv st = (Some (ValueError_twice n), venv, st)"
proof -
  from resolve_container_set_fails [OF assms]
  obtain n where "n \<in> set (docker venv)"
    "resolve_container_set (CONTAINER_CONFIGS st) (docker venv) = Inl (ValueError_missing n)
     \<or> resolve_container_set (CONTAINER_CONFIGS st) (docker venv) = Inl (ValueError_twice n)"
    by blast
  then show ?thesis
    by (auto simp: tox_runtest_pre_def)
qed

theorem invalid_list_fails_before_engine_witness:
  "(CONTAINER_CONFIGS st_ex ''ghost'' = None \<and>
    tox_runtest_pre eng_ok (venv_ex [''db'', ''ghost'']) st_ex
      = (Some (ValueError_missing ''ghost''), venv_ex [''db'', ''ghost''], st_ex)) \<and>
   (\<not> distinct [''db'', ''db''] \<and>
    tox_runtest_pre eng_ok (venv_ex [''db'', ''db'']) st_ex
      = (Some (ValueError_twice ''db''), venv_ex [''db'', ''db''], st_ex))"
  using invalid_list_fails_before_engine [of "venv_ex [''db'', ''ghost'']" st_ex eng_ok]
    invalid_list_fails_before_engine [of "venv_ex [''db'', ''db'']" st_ex eng_ok]
  by (simp add: ex_defs run_defs)

subsection \<open>Injecting environment variables\<close>

text \<open>
  Claim C6. A variable that is in the environment's variable map before
  \<open>tox_runtest_pre\<close> has the same value after it, however the hook ends: an injected
  variable never overwrites one that was already there.
\<close>

theorem setup_keeps_existing_variables:
  assumes "tox_runtest_pre eng venv st = (out, venv', st')"
    and "setenv venv var = Some val"
  shows "setenv venv' var = Some val"
  using assms(1)
proof (cases rule: pre_cases)
  case (injected cs st1 st2 env')
  from inject_loop_keeps [OF assms(2) injected(5)] injected(6) show ?thesis by simp
qed (use assms(2) in simp_all)

theorem setup_keeps_existing_variables_witness:
  "setenv (venv_ex [''db'']) ''db_HOST'' = Some ''localhost'' \<and>
   fst (tox_runtest_pre eng_ok (venv_ex [''db'']) st_ex) = None \<and>
   setenv (fst (snd (tox_runtest_pre eng_ok (venv_ex [''db'']) st_ex))) ''db_HOST'' = Some ''localhost''"
  using setup_keeps_existing_variables [of eng_ok "venv_ex [''db'']" st_ex
      "fst (tox_runtest_pre eng_ok (venv_ex [''db'']) st_ex)"
      "fst (snd (tox_runtest_pre eng_ok (venv_ex [''db'']) st_ex))"
      "snd (snd (tox_runtest_pre eng_ok (venv_ex [''db'']) st_ex))" "''db_HOST''" "''localhost''"]
  by (simp add: ex_defs run_defs)

text \<open>
  Claim C3. The claim is that only healthy containers contribute variables. The hook keeps
  no record of the health checks: after the loop of lines 82-88 has ended, by exhaustion
  or by \<open>break\<close>, lines 90-97 go through all containers of the dictionary. Below, the
  check of \<open>a\<close> fails and \<open>b\<close> is never checked, and both export their variable.
\<close>

theorem injection_only_healthy_counterexample:
  "health_failed (new_calls st_ex
      (snd (snd (tox_runtest_pre eng_unhealthy (venv_ex [''a'', ''b'']) st_ex))) ! 4) \<and>
   health_checked (new_calls st_ex
      (snd (snd (tox_runtest_pre eng_unhealthy (venv_ex [''a'', ''b'']) st_ex)))) = [Container ''a''] \<and>
   setenv (venv_ex [''a'', ''b'']) ''a_HOST'' = None \<and>
   setenv (venv_ex [''a'', ''b'']) ''b_HOST'' = None \<and>
   setenv (fst (snd (tox_runtest_pre eng_unhealthy (venv_ex [''a'', ''b'']) st_ex))) ''a_HOST'' =
     Some ''127.0.0.1'' \<and>
   setenv (fst (snd (tox_runtest_pre eng_unhealthy (venv_ex [''a'', ''b'']) st_ex))) ''b_HOST'' =
     Some ''127.0.0.1''"
  unfolding pre_unhealthy_a_b
  by (simp add: new_calls_def st_ex_def venv_ex_def)

text \<open>
  Claim C3, amended. Injection is performed for every container of the environment's
  dictionary, whatever the health checks said: when \<open>tox_runtest_pre\<close> returns normally,
  the variable map is the map before the hook, extended at the names it did not have
  with the variables of all registered containers, the first exporter of a name winning.
\<close>

theorem injection_ignores_health:
  assumes "tox_runtest_pre eng venv st = (None, venv', st')"
  shows "setenv venv' =
           map_of (exported_by_all eng (CONTAINER_CONFIGS st') (env_dict st' (venv_id venv)))
             ++ setenv venv"
  using assms
proof (cases rule: pre_cases)
  case (injected cs st1 st2 env')
  from inject_loop_all [OF injected(5)] injected(6) show ?thesis by simp
qed simp_all

theorem injection_ignores_health_witness:
  "fst (tox_runtest_pre eng_unhealthy (venv_ex [''a'', ''b'']) st_ex) = None \<and>
   setenv (fst (snd (tox_runtest_pre eng_unhealthy (venv_ex [''a'', ''b'']) st_ex))) =
     map_of [(''a_HOST'', ''127.0.0.1''), (''b_HOST'', ''127.0.0.1'')]
       ++ setenv (venv_ex [''a'', ''b''])"
proof -
  let ?st = "st_ex\<lparr>ENV_CONTAINERS := [0 \<mapsto> [(''a'', Container ''a''), (''b'', Container ''b'')]],
            calls := [EvPull cfg_a None, EvPull cfg_b None,
                      EvRun cfg_a [] (Inr (Container ''a'')),
                      EvRun cfg_b [(''a'', Container ''a'')] (Inr (Container ''b'')),
                      EvHealth cfg_a (Container ''a'') (Some HealthCheckFailed)]\<rparr>"
  have "exported_by_all eng_unhealthy (CONTAINER_CONFIGS ?st)
          (env_dict ?st (venv_id (venv_ex [''a'', ''b'']))) =
        [(''a_HOST'', ''127.0.0.1''), (''b_HOST'', ''127.0.0.1'')]"
    by (simp add: ex_defs env_dict_def)
  with injection_ignores_health [OF pre_unhealthy_a_b] show ?thesis
    unfolding pre_unhealthy_a_b by simp
qed

subsection \<open>The order of the engine calls in the setup hook\<close>

text \<open>
  Claim C9. Every resolved image is pulled before any container of the environment is
  started: in the calls of one \<open>tox_runtest_pre\<close> every pull precedes every start, a
  start call is only issued after all resolved configurations have been pulled
  successfully, and a pull that fails is the last call of the hook, which ends with the
  pull's exception, without a start call and with \<open>ENV_CONTAINERS\<close> and the environment
  unchanged.
\<close>

theorem pulls_precede_starts:
  assumes "tox_runtest_pre eng venv st = (out, venv', st')"
  shows "(\<forall>i j. i < length (new_calls st st') \<and> j < length (new_calls st st') \<and>
                is_run (new_calls st st' ! i) \<and> is_pull (new_calls st st' ! j) \<longrightarrow> j < i) \<and>
         ((\<exists>e \<in> set (new_calls st st'). is_run e) \<longrightarrow>
            (\<exists>cs. resolve_container_set (CONTAINER_CONFIGS st) (docker venv) = Inr cs \<and>
                  take (length cs) (new_calls st st') = map (\<lambda>c. EvPull c None) cs)) \<and>
         ((\<exists>e \<in> set (new_calls st st'). pull_failed e) \<longrightarrow>
            (\<exists>c e. out = Some e \<and> last (new_calls st st') = EvPull c (Some e)) \<and>
            (\<forall>e \<in> set (new_calls st st'). \<not> is_run e) \<and>
            ENV_CONTAINERS st' = ENV_CONTAINERS st \<and> venv' = venv)"
proof -
  from pre_log [OF assms] obtain P R H where log: "calls st' = calls st @ P @ R @ H"
    and P: "\<forall>e \<in> set P. is_pull e" and R: "\<forall>e \<in> set R. is_run e"
    and H: "\<forall>e \<in> set H. is_health e"
    and late: "R @ H \<noteq> [] \<longrightarrow>
              (\<exists>cs. resolve_container_set (CONTAINER_CONFIGS st) (docker venv) = Inr cs \<and>
                    P = map (\<lambda>c. EvPull c None) cs)"
    and early: "(\<exists>e \<in> set P. pull_failed e) \<longrightarrow>
              R @ H = [] \<and> (\<exists>c e. out = Some e \<and> last P = EvPull c (Some e)) \<and>
              ENV_CONTAINERS st' = ENV_CONTAINERS st \<and> venv' = venv"
    by blast
  from log have new: "new_calls st st' = P @ (R @ H)" by (simp add: new_calls_def)
  from P have P': "\<forall>e \<in> set P. \<not> is_run e" by (auto dest: event_kinds)
  from R H have RH: "\<forall>e \<in> set (R @ H). \<not> is_pull e" by (auto dest: event_kinds)
  have a: "j < i"
    if "i < length (new_calls st st')" "j < length (new_calls st st')"
       "is_run (new_calls st st' ! i)" "is_pull (new_calls st st' ! j)" for i j
    using split_order [OF P' RH, of i j] that unfolding new by blast
  have b: "\<exists>cs. resolve_container_set (CONTAINER_CONFIGS st) (docker venv) = Inr cs \<and>
                  take (length cs) (new_calls st st') = map (\<lambda>c. EvPull c None) cs"
    if "\<exists>e \<in> set (new_calls st st'). is_run e"
  proof -
    from that P' have "R @ H \<noteq> []" unfolding new by auto
    with late obtain cs where "resolve_container_set (CONTAINER_CONFIGS st) (docker venv) = Inr cs"
      "P = map (\<lambda>c. EvPull c None) cs" by blast
    then show ?thesis unfolding new by auto
  qed
  have c: "(\<exists>c e. out = Some e \<and> last (new_calls st st') = EvPull c (Some e)) \<and>
            (\<forall>e \<in> set (new_calls st st'). \<not> is_run e) \<and>
            ENV_CONTAINERS st' = ENV_CONTAINERS st \<and> venv' = venv"
    if "\<exists>e \<in> set (new_calls st st'). pull_failed e"
  proof -
    from that RH have "\<exists>e \<in> set P. pull_failed e"
      unfolding new by (auto dest: event_kinds)
    with early have "R @ H = []" "\<exists>c e. out = Some e \<and> last P = EvPull c (Some e)"
      "ENV_CONTAINERS st' = ENV_CONTAINERS st" "venv' = venv" by blast+
    with P' show ?thesis unfolding new by simp
  qed
  from a b c show ?thesis by blast
qed


theorem pulls_precede_starts_witness:
  "is_run (new_calls st_ex (snd (snd (tox_runtest_pre eng_ok (venv_ex [''db'', ''web'']) st_ex))) ! 2) \<and>
   take 2 (new_calls st_ex (snd (snd (tox_runtest_pre eng_ok (venv_ex [''db'', ''web'']) st_ex)))) =
     [EvPull cfg_db None, EvPull cfg_web None] \<and>
   resolve_container_set (CONTAINER_CONFIGS st_ex) (docker (venv_ex [''db'', ''web''])) =
     Inr [cfg_db, cfg_web] \<and>
   pull_failed (new_calls st_ex
     (snd (snd (tox_runtest_pre eng_pull_fails (venv_ex [''db'', ''web'']) st_ex))) ! 0) \<and>
   fst (tox_runtest_pre eng_pull_fails (venv_ex [''db'', ''web'']) st_ex) =
     Some (OtherError ''pull failed'') \<and>
   ENV_CONTAINERS (snd (snd (tox_runtest_pre eng_pull_fails (venv_ex [''db'', ''web'']) st_ex))) =
     ENV_CONTAINERS st_ex"
proof -
  let ?ok = "st_ex\<lparr>ENV_CONTAINERS := [0 \<mapsto> [(''db'', Container ''db''), (''web'', Container ''web'')]],
            calls := [EvPull cfg_db None, EvPull cfg_web None,
                      EvRun cfg_db [] (Inr (Container ''db'')),
                      EvRun cfg_web [(''db'', Container ''db'')] (Inr (Container ''web'')),
                      EvHealth cfg_db (Container ''db'') None,
                      EvHealth cfg_web (Container ''web'') None]\<rparr>"
  let ?bad = "st_ex\<lparr>calls := [EvPull cfg_db (Some (OtherError ''pull failed''))]\<rparr>"
  have new_ok: "new_calls st_ex ?ok =
     [EvPull cfg_db None, EvPull cfg_web None,
      EvRun cfg_db [] (Inr (Container ''db'')),
      EvRun cfg_web [(''db'', Container ''db'')] (Inr (Container ''web'')),
      EvHealth cfg_db (Container ''db'') None,
      EvHealth cfg_web (Container ''web'') None]"
    by (simp add: new_calls_def st_ex_def)
  have new_bad: "new_calls st_ex ?bad = [EvPull cfg_db (Some (OtherError ''pull failed''))]"
    by (simp add: new_calls_def st_ex_def)
  have res: "resolve_container_set (CONTAINER_CONFIGS st_ex) (docker (venv_ex [''db'', ''web''])) =
     Inr [cfg_db, cfg_web]"
    by (simp add: ex_defs resolve_container_set_def)
  note ok = pulls_precede_starts [OF pre_ok_db_web]
  note bad = pulls_precede_starts [OF pre_pull_fails_db_web]
  have run: "is_run (new_calls st_ex ?ok ! 2)" unfolding new_ok by simp
  then have "\<exists>e \<in> set (new_calls st_ex ?ok). is_run e" unfolding new_ok by simp
  with ok obtain cs where
    cs: "resolve_container_set (CONTAINER_CONFIGS st_ex) (docker (venv_ex [''db'', ''web''])) = Inr cs"
      "take (length cs) (new_calls st_ex ?ok) = map (\<lambda>c. EvPull c None) cs"
    by blast
  from cs(1) res have "cs = [cfg_db, cfg_web]" by simp
  with cs(2) have "take 2 (new_calls st_ex ?ok) = [EvPull cfg_db None, EvPull cfg_web None]"
    by (simp add: new_ok)
  moreover have failed: "pull_failed (new_calls st_ex ?bad ! 0)" unfolding new_bad by simp
  then have "\<exists>e \<in> set (new_calls st_ex ?bad). pull_failed e" unfolding new_bad by simp
  with bad have "ENV_CONTAINERS ?bad = ENV_CONTAINERS st_ex" by blast
  ultimately show ?thesis
    using run res failed unfolding pre_ok_db_web pre_pull_fails_db_web by simp
qed

text \<open>
  Claim C1. If a health check raises \<open>HealthCheckFailed\<close>, it is the last call that
  \<open>tox_runtest_pre\<close> issues, so no health check is attempted for a container after it.
  Health checks go through the environment's dictionary in its iteration order, which is
  the order in which the containers were stored: the containers checked are a prefix of
  the registered ones. Every container started by the hook is in the environment's
  dictionary of \<open>ENV_CONTAINERS\<close> when the hook ends, provided each configuration is
  stored in \<open>CONTAINER_CONFIGS\<close> under its own name.
\<close>

theorem health_check_fail_fast:
  assumes "tox_runtest_pre eng venv st = (out, venv', st')"
  shows "(\<forall>i. i < length (new_calls st st') \<and> health_failed (new_calls st st' ! i)
            \<longrightarrow> Suc i = length (new_calls st st')) \<and>
         prefix (health_checked (new_calls st st')) (map snd (env_dict st' (venv_id venv))) \<and>
         (keyed_by_name (CONTAINER_CONFIGS st) (docker venv) \<longrightarrow>
            (\<forall>c d k. EvRun c d (Inr k) \<in> set (new_calls st st')
               \<longrightarrow> (name c, k) \<in> set (env_dict st' (venv_id venv))))"
proof -
  from pre_log [OF assms] obtain P R H where log: "calls st' = calls st @ P @ R @ H"
    and P: "\<forall>e \<in> set P. is_pull e" and R: "\<forall>e \<in> set R. is_run e"
    and H: "\<forall>e \<in> set (butlast H). \<not> health_failed e"
      "prefix (health_checked H) (map snd (env_dict st' (venv_id venv)))"
    by blast
  from log have new: "new_calls st st' = (P @ R) @ H" by (simp add: new_calls_def)
  from P R have PR: "\<forall>e \<in> set (P @ R). \<not> is_health e" "\<forall>e \<in> set (P @ R). \<not> health_failed e"
    by (auto dest: event_kinds)
  have "Suc i = length (new_calls st st')"
    if "i < length (new_calls st st')" "health_failed (new_calls st st' ! i)" for i
    using failed_is_last [OF PR(2) H(1), of i] that unfolding new by blast
  moreover have "prefix (health_checked (new_calls st st')) (map snd (env_dict st' (venv_id venv)))"
    unfolding new using H(2) PR(1) by (simp only: health_checked_append)
  moreover have "(name c, k) \<in> set (env_dict st' (venv_id venv))"
    if "keyed_by_name (CONTAINER_CONFIGS st) (docker venv)"
       "EvRun c d (Inr k) \<in> set (new_calls st st')" for c d k
    using pre_registered [OF assms that] .
  ultimately show ?thesis by blast
qed

theorem health_check_fail_fast_witness:
  "health_failed (new_calls st_ex
      (snd (snd (tox_runtest_pre eng_unhealthy (venv_ex [''web'', ''db'']) st_ex))) ! 4) \<and>
   length (new_calls st_ex
      (snd (snd (tox_runtest_pre eng_unhealthy (venv_ex [''web'', ''db'']) st_ex)))) = 5 \<and>
   health_checked (new_calls st_ex
      (snd (snd (tox_runtest_pre eng_unhealthy (venv_ex [''web'', ''db'']) st_ex)))) =
     [Container ''web''] \<and>
   keyed_by_name (CONTAINER_CONFIGS st_ex) (docker (venv_ex [''web'', ''db''])) \<and>
   (''web'', Container ''web'') \<in> set (env_dict
      (snd (snd (tox_runtest_pre eng_unhealthy (venv_ex [''web'', ''db'']) st_ex))) 0) \<and>
   (''db'', Container ''db'') \<in> set (env_dict
      (snd (snd (tox_runtest_pre eng_unhealthy (venv_ex [''web'', ''db'']) st_ex))) 0)"
proof -
  let ?st = "st_ex\<lparr>ENV_CONTAINERS := [0 \<mapsto> [(''web'', Container ''web''), (''db'', Container ''db'')]],
            calls := [EvPull cfg_web None, EvPull cfg_db None,
                      EvRun cfg_web [] (Inr (Container ''web'')),
                      EvRun cfg_db [(''web'', Container ''web'')] (Inr (Container ''db'')),
                      EvHealth cfg_web (Container ''web'') (Some HealthCheckFailed)]\<rparr>"
  have new: "new_calls st_ex ?st =
     [EvPull cfg_web None, EvPull cfg_db None,
      EvRun cfg_web [] (Inr (Container ''web'')),
      EvRun cfg_db [(''web'', Container ''web'')] (Inr (Container ''db'')),
      EvHealth cfg_web (Container ''web'') (Some HealthCheckFailed)]"
    by (simp add: new_calls_def st_ex_def)
  have keyed: "keyed_by_name (CONTAINER_CONFIGS st_ex) (docker (venv_ex [''web'', ''db'']))"
    by (simp add: keyed_by_name_def ex_defs)
  note fact = health_check_fail_fast [OF pre_unhealthy_web_db]
  have failed: "health_failed (new_calls st_ex ?st ! 4)" unfolding new by simp
  from fact failed have "length (new_calls st_ex ?st) = 5"
    unfolding new by simp
  moreover from fact have "prefix (health_checked (new_calls st_ex ?st))
      (map snd (env_dict ?st (venv_id (venv_ex [''web'', ''db'']))))"
    by blast
  then have "health_checked (new_calls st_ex ?st) = [Container ''web'']"
    unfolding new by simp
  moreover from fact keyed have
    "(name cfg_web, Container ''web'') \<in> set (env_dict ?st (venv_id (venv_ex [''web'', ''db''])))"
    "(name cfg_db, Container ''db'') \<in> set (env_dict ?st (venv_id (venv_ex [''web'', ''db''])))"
    unfolding new by simp_all
  then have "(''web'', Container ''web'') \<in> set (env_dict ?st 0)"
    "(''db'', Container ''db'') \<in> set (env_dict ?st 0)"
    by (simp_all add: cfg_web_def cfg_db_def venv_ex_def)
  ultimately show ?thesis
    using failed keyed unfolding pre_unhealthy_web_db by simp
qed




subsection \<open>Teardown\<close>

text \<open>
  Claim C2. The claim is that after \<open>tox_runtest_post\<close> the environment's dictionary has
  no entry whose name is outside the \<open>--docker-dont-stop\<close> set, entries being removed
  by teardown. The hook removes nothing: it builds a list from the dictionary and hands
  the list to \<open>stop_containers\<close>. Below, only \<open>db\<close> is excluded from stopping, and
  \<open>web\<close> is still in the dictionary after the hook has returned.
\<close>

theorem teardown_removes_entries_counterexample:
  "docker_dont_stop config_keep_db = [''db''] \<and> ''web'' \<notin> set (docker_dont_stop config_keep_db) \<and>
   fst (tox_runtest_post eng_ok (venv_ex [''db'', ''web'']) st_running) = None \<and>
   ENV_CONTAINERS (snd (tox_runtest_post eng_ok (venv_ex [''db'', ''web'']) st_running)) 0 =
     Some [(''db'', Container ''db''), (''web'', Container ''web'')]"
  unfolding post_running
  by (simp add: config_keep_db_def st_running_def)

text \<open>
  Claim C2, amended. After \<open>tox_runtest_post\<close> the dictionaries \<open>ENV_CONTAINERS\<close> and
  \<open>CONTAINER_CONFIGS\<close> are what they were before it: teardown removes no entry, excluded
  or not. When the environment has a dictionary and each of its names has a
  configuration, the hook issues exactly one call, \<open>stop_containers\<close>, with every entry
  of the dictionary paired with its configuration, in the dictionary's order.
\<close>

theorem teardown_keeps_registry:
  assumes "tox_runtest_post eng venv st = (r, st')"
  shows "ENV_CONTAINERS st' = ENV_CONTAINERS st \<and> CONTAINER_CONFIGS st' = CONTAINER_CONFIGS st \<and>
    (\<forall>d. ENV_CONTAINERS st (venv_id venv) = Some d \<and> (\<forall>n \<in> fst ` set d. CONTAINER_CONFIGS st n \<noteq> None)
       \<longrightarrow> (\<exists>ccs. new_calls st st' = [EvStop ccs r] \<and> map snd ccs = map snd d \<and>
                  map (\<lambda>(c, k). Some c) ccs = map (\<lambda>(n, k). CONTAINER_CONFIGS st n) d))"
proof -
  have frame: "ENV_CONTAINERS st' = ENV_CONTAINERS st \<and> CONTAINER_CONFIGS st' = CONTAINER_CONFIGS st"
    using assms
    by (auto simp: tox_runtest_post_def Let_def split: sum.splits)
  have "\<exists>ccs. new_calls st st' = [EvStop ccs r] \<and> map snd ccs = map snd d \<and>
                  map (\<lambda>(c, k). Some c) ccs = map (\<lambda>(n, k). CONTAINER_CONFIGS st n) d"
    if d: "ENV_CONTAINERS st (venv_id venv) = Some d"
      and known: "\<forall>n \<in> fst ` set d. CONTAINER_CONFIGS st n \<noteq> None" for d
  proof -
    from containers_and_configs_ok [OF known] obtain ccs where
      ccs: "containers_and_configs (CONTAINER_CONFIGS st) d = Inr ccs" "map snd ccs = map snd d"
        "map (\<lambda>(c, k). Some c) ccs = map (\<lambda>(n, k). CONTAINER_CONFIGS st n) d"
      by blast
    from assms d ccs(1) have "r = stop_containers eng (calls st) ccs"
      "st' = st\<lparr>calls := calls st @ [EvStop ccs r]\<rparr>"
      by (auto simp: tox_runtest_post_def get_env_containers_def Let_def)
    then have "new_calls st st' = [EvStop ccs r]" by (simp add: new_calls_def)
    with ccs(2,3) show ?thesis by blast
  qed
  with frame show ?thesis by blast
qed

theorem teardown_keeps_registry_witness:
  "ENV_CONTAINERS st_running (venv_id (venv_ex [''db'', ''web''])) =
     Some [(''db'', Container ''db''), (''web'', Container ''web'')] \<and>
   CONTAINER_CONFIGS st_running ''db'' \<noteq> None \<and> CONTAINER_CONFIGS st_running ''web'' \<noteq> None \<and>
   ENV_CONTAINERS (snd (tox_runtest_post eng_ok (venv_ex [''db'', ''web'']) st_running)) =
     ENV_CONTAINERS st_running \<and>
   (\<exists>ccs. new_calls st_running (snd (tox_runtest_post eng_ok (venv_ex [''db'', ''web'']) st_running)) =
            [EvStop ccs None] \<and>
          map snd ccs = [Container ''db'', Container ''web''])"
proof -
  let ?d = "[(''db'', Container ''db''), (''web'', Container ''web'')]"
  let ?st = "st_running\<lparr>calls := [EvStop [(cfg_db, Container ''db''), (cfg_web, Container ''web'')] None]\<rparr>"
  have d: "ENV_CONTAINERS st_running (venv_id (venv_ex [''db'', ''web''])) = Some ?d"
    by (simp add: st_running_def venv_ex_def)
  have known: "\<forall>n \<in> fst ` set ?d. CONTAINER_CONFIGS st_running n \<noteq> None"
    by (simp add: st_running_def registry_ex_def)
  note fact = teardown_keeps_registry [OF post_running]
  from fact have frame: "ENV_CONTAINERS ?st = ENV_CONTAINERS st_running" by (rule conjunct1)
  from fact d known obtain ccs where "new_calls st_running ?st = [EvStop ccs None]"
    "map snd ccs = map snd ?d"
    by blast
  then have "\<exists>ccs. new_calls st_running ?st = [EvStop ccs None] \<and>
      map snd ccs = [Container ''db'', Container ''web'']"
    by simp
  with d frame known show ?thesis unfolding post_running by simp
qed

text \<open>
  Claim C10. The claim is that \<open>tox_runtest_post\<close>, called for a test environment that
  has no entry in \<open>ENV_CONTAINERS\<close>, returns without an exception and stops nothing.
  The hook does stop nothing, but it does not return: the default of the lookup is a
  list, \<open>.items()\<close> fails on it, and the hook ends with \<open>AttributeError\<close>.
\<close>

theorem teardown_without_entry_raises:
  "ENV_CONTAINERS st_ex (venv_id (venv_ex [''db''])) = None \<and>
   tox_runtest_post eng_ok (venv_ex [''db'']) st_ex = (Some AttributeError, st_ex)"
  by (simp add: ex_defs run_defs)

subsection \<open>Configuration\<close>

text \<open>
  Claim C8. The claim is that for every entry \<open>X\<close> of \<open>--docker-dont-stop\<close>,
  \<open>tox_configure\<close> fails with an error naming \<open>X\<close> if and only if \<open>X\<close> is not a
  discovered name. The loop of lines 41-45 raises at the first unknown entry, so an unknown
  entry after the first one is never named: with \<open>ghost1\<close> and \<open>ghost2\<close> both
  unknown the error names \<open>ghost1\<close>.
\<close>

theorem dont_stop_every_entry_counterexample:
  "''ghost2'' \<in> set (docker_dont_stop config_ghosts) \<and>
   ''ghost2'' \<notin> set (discover_container_configs t_ex config_ghosts) \<and>
   tox_configure t_ex config_ghosts st_empty = (Some (ValueError_dont_stop ''ghost1''), st_empty) \<and>
   tox_configure t_ex config_ghosts st_empty \<noteq> (Some (ValueError_dont_stop ''ghost2''), st_empty)"
  by (simp add: tox_configure_def Let_def t_ex_def config_ghosts_def)

text \<open>
  Claim C8, amended. If some entry of \<open>--docker-dont-stop\<close> is not a discovered name,
  \<open>tox_configure\<close> fails with the error naming the first such entry, all entries before
  it being known, and leaves the module state as it was. If every entry is known, the
  check passes and configuration proceeds to parsing the discovered sections.
\<close>

theorem dont_stop_names_first_unknown:
  "((\<exists>x \<in> set (docker_dont_stop config). x \<notin> set (discover_container_configs t config)) \<longrightarrow>
      (\<exists>known x rest. docker_dont_stop config = known @ x # rest \<and>
         (\<forall>y \<in> set known. y \<in> set (discover_container_configs t config)) \<and>
         x \<notin> set (discover_container_configs t config) \<and>
         tox_configure t config st = (Some (ValueError_dont_stop x), st))) \<and>
   ((\<forall>x \<in> set (docker_dont_stop config). x \<in> set (discover_container_configs t config)) \<longrightarrow>
      tox_configure t config st =
        parse_loop t config (discover_container_configs t config)
          (discover_container_configs t config) st)"
proof (intro conjI impI)
  assume "\<exists>x \<in> set (docker_dont_stop config). x \<notin> set (discover_container_configs t config)"
  from validate_dont_stop_first [OF this] obtain known x rest where
    "docker_dont_stop config = known @ x # rest"
    "\<forall>y \<in> set known. y \<in> set (discover_container_configs t config)"
    "x \<notin> set (discover_container_configs t config)"
    "validate_dont_stop (discover_container_configs t config) (docker_dont_stop config)
       = Some (ValueError_dont_stop x)"
    by blast
  moreover from this(4) have "tox_configure t config st = (Some (ValueError_dont_stop x), st)"
    by (simp add: tox_configure_def Let_def)
  ultimately show "\<exists>known x rest. docker_dont_stop config = known @ x # rest \<and>
         (\<forall>y \<in> set known. y \<in> set (discover_container_configs t config)) \<and>
         x \<notin> set (discover_container_configs t config) \<and>
         tox_configure t config st = (Some (ValueError_dont_stop x), st)"
    by blast
next
  assume "\<forall>x \<in> set (docker_dont_stop config). x \<in> set (discover_container_configs t config)"
  from validate_dont_stop_ok [OF this]
  show "tox_configure t config st =
        parse_loop t config (discover_container_configs t config)
          (discover_container_configs t config) st"
    by (simp add: tox_configure_def Let_def)
qed

theorem dont_stop_names_first_unknown_witness:
  "''ghost1'' \<in> set (docker_dont_stop config_ghosts) \<and>
   ''ghost1'' \<notin> set (discover_container_configs t_ex config_ghosts) \<and>
   tox_configure t_ex config_ghosts st_empty = (Some (ValueError_dont_stop ''ghost1''), st_empty) \<and>
   ''db'' \<in> set (discover_container_configs t_ex config_keep_db) \<and>
   tox_configure t_ex config_keep_db st_empty =
     (None, st_empty\<lparr>CONTAINER_CONFIGS := [''db'' \<mapsto> cfg_db, ''web'' \<mapsto> cfg_web]\<rparr>)"
proof -
  note bad = dont_stop_names_first_unknown [of config_ghosts t_ex st_empty]
  note good = dont_stop_names_first_unknown [of config_keep_db t_ex st_empty]
  have unknown: "\<exists>x \<in> set (docker_dont_stop config_ghosts).
      x \<notin> set (discover_container_configs t_ex config_ghosts)"
    by (simp add: config_ghosts_def t_ex_def)
  with bad obtain known x rest where x: "docker_dont_stop config_ghosts = known @ x # rest"
    "\<forall>y \<in> set known. y \<in> set (discover_container_configs t_ex config_ghosts)"
    "tox_configure t_ex config_ghosts st_empty = (Some (ValueError_dont_stop x), st_empty)"
    by blast
  have "known = []"
  proof (cases known)
    case Nil
    then show ?thesis .
  next
    case (Cons y ys)
    with x(1) have "y = ''ghost1''" by (simp add: config_ghosts_def)
    with x(2) Cons show ?thesis by (simp add: t_ex_def)
  qed
  with x(1) have "x = ''ghost1''" by (simp add: config_ghosts_def)
  with x(3) have c1: "tox_configure t_ex config_ghosts st_empty =
      (Some (ValueError_dont_stop ''ghost1''), st_empty)" by simp
  have "\<forall>x \<in> set (docker_dont_stop config_keep_db).
      x \<in> set (discover_container_configs t_ex config_keep_db)"
    by (simp add: config_keep_db_def t_ex_def)
  with good have "tox_configure t_ex config_keep_db st_empty =
        parse_loop t_ex config_keep_db (discover_container_configs t_ex config_keep_db)
          (discover_container_configs t_ex config_keep_db) st_empty"
    by blast
  also have "\<dots> = (None, st_empty\<lparr>CONTAINER_CONFIGS := [''db'' \<mapsto> cfg_db, ''web'' \<mapsto> cfg_web]\<rparr>)"
    by (simp add: t_ex_def st_empty_def)
  finally have c2: "tox_configure t_ex config_keep_db st_empty =
     (None, st_empty\<lparr>CONTAINER_CONFIGS := [''db'' \<mapsto> cfg_db, ''web'' \<mapsto> cfg_web]\<rparr>)" .
  from c1 c2 show ?thesis by (simp add: config_ghosts_def config_keep_db_def t_ex_def)
qed

end
